theory Spec2Isabelle
  imports Complex_Main "HOL-Library.Sublist" "HOL-Library.Word"
begin

chapter \<open>The gateway: model of the code\<close>

section \<open>Hook authentication failure table (part\_000, createHooksRequestHandler)\<close>

text \<open>
  The table is a JavaScript \<open>Map\<close>: its iteration order is the insertion order of
  the keys, \<open>set\<close> on a key that is present keeps the key's position, \<open>set\<close> on a new key
  appends it, and \<open>delete\<close> removes the key. It is modelled as an association list, oldest
  entry first. Times are the integer milliseconds of \<open>Date.now()\<close>.
\<close>

definition HOOK_AUTH_FAILURE_LIMIT :: nat where
  "HOOK_AUTH_FAILURE_LIMIT = 20"

definition HOOK_AUTH_FAILURE_WINDOW_MS :: int where
  "HOOK_AUTH_FAILURE_WINDOW_MS = 60000"

definition HOOK_AUTH_FAILURE_TRACK_MAX :: nat where
  "HOOK_AUTH_FAILURE_TRACK_MAX = 2048"

record HookAuthFailure =
  count :: nat
  windowStartedAtMs :: int

type_synonym failure_map = "(string \<times> HookAuthFailure) list"

definition map_has :: "string \<Rightarrow> failure_map \<Rightarrow> bool" where
  "map_has k m = (k \<in> set (map fst m))"

definition map_get :: "string \<Rightarrow> failure_map \<Rightarrow> HookAuthFailure option" where
  "map_get k m = map_of m k"

definition map_delete :: "string \<Rightarrow> failure_map \<Rightarrow> failure_map" where
  "map_delete k m = filter (\<lambda>p. fst p \<noteq> k) m"

definition map_set :: "string \<Rightarrow> HookAuthFailure \<Rightarrow> failure_map \<Rightarrow> failure_map" where
  "map_set k v m =
     (if map_has k m then map (\<lambda>p. if fst p = k then (k, v) else p) m else m @ [(k, v)])"

text \<open>\<open>nowMs - entry.windowStartedAtMs >= HOOK_AUTH_FAILURE_WINDOW_MS\<close>\<close>

definition windowElapsed :: "int \<Rightarrow> HookAuthFailure \<Rightarrow> bool" where
  "windowElapsed nowMs entry = (nowMs - windowStartedAtMs entry \<ge> HOOK_AUTH_FAILURE_WINDOW_MS)"

text \<open>
  The pruning loop \<open>for (const [key, entry] of hookAuthFailures)\<close>: it visits every entry
  the map held when the loop began (deleting the entry under the iterator does not disturb
  a \<open>Map\<close> iteration) and deletes the expired ones from the map.
\<close>

fun pruneExpired :: "int \<Rightarrow> failure_map \<Rightarrow> failure_map \<Rightarrow> failure_map" where
  "pruneExpired nowMs [] m = m"
| "pruneExpired nowMs ((key, entry) # rest) m =
     pruneExpired nowMs rest (if windowElapsed nowMs entry then map_delete key m else m)"

text \<open>
  The loop \<open>for (const key of hookAuthFailures.keys())\<close> with its counter \<open>toRemove\<close>:
  it stops at \<open>toRemove <= 0\<close>, else deletes the key and counts down.
\<close>

fun dropOldest :: "nat \<Rightarrow> string list \<Rightarrow> failure_map \<Rightarrow> failure_map" where
  "dropOldest toRemove [] m = m"
| "dropOldest toRemove (key # keys) m =
     (if toRemove \<le> 0 then m else dropOldest (toRemove - 1) keys (map_delete key m))"

text \<open>The block guarded by \<open>!has(clientKey) && size >= HOOK_AUTH_FAILURE_TRACK_MAX\<close>.\<close>

definition evictForInsert :: "string \<Rightarrow> int \<Rightarrow> failure_map \<Rightarrow> failure_map" where
  "evictForInsert clientKey nowMs m =
     (if \<not> map_has clientKey m \<and> length m \<ge> HOOK_AUTH_FAILURE_TRACK_MAX then
        (let m1 = pruneExpired nowMs m m in
         if length m1 \<ge> HOOK_AUTH_FAILURE_TRACK_MAX
         then dropOldest (length m1 div 2) (map fst m1) m1
         else m1)
      else m)"

text \<open>\<open>Math.ceil(x / 1000)\<close> on an integer \<open>x\<close>.\<close>

definition ceilDiv1000 :: "int \<Rightarrow> int" where
  "ceilDiv1000 x = - ((- x) div 1000)"

record throttle_result =
  throttled :: bool
  retryAfterSeconds :: "int option"

definition nextFailure :: "int \<Rightarrow> HookAuthFailure option \<Rightarrow> HookAuthFailure" where
  "nextFailure nowMs current =
     (case current of
        None \<Rightarrow> \<lparr>count = 1, windowStartedAtMs = nowMs\<rparr>
      | Some cur \<Rightarrow>
          if windowElapsed nowMs cur
          then \<lparr>count = 1, windowStartedAtMs = nowMs\<rparr>
          else \<lparr>count = count cur + 1, windowStartedAtMs = windowStartedAtMs cur\<rparr>)"

definition recordHookAuthFailure ::
  "string \<Rightarrow> int \<Rightarrow> failure_map \<Rightarrow> throttle_result \<times> failure_map" where
  "recordHookAuthFailure clientKey nowMs m0 =
     (let m1 = evictForInsert clientKey nowMs m0;
          nxt = nextFailure nowMs (map_get clientKey m1);
          m2 = (if map_has clientKey m1 then map_delete clientKey m1 else m1);
          m3 = map_set clientKey nxt m2
      in if count nxt \<le> HOOK_AUTH_FAILURE_LIMIT
         then (\<lparr>throttled = False, retryAfterSeconds = None\<rparr>, m3)
         else (let retryAfterMs =
                     max 1 (windowStartedAtMs nxt + HOOK_AUTH_FAILURE_WINDOW_MS - nowMs)
               in (\<lparr>throttled = True, retryAfterSeconds = Some (ceilDiv1000 retryAfterMs)\<rparr>,
                   m3)))"

definition clearHookAuthFailure :: "string \<Rightarrow> failure_map \<Rightarrow> failure_map" where
  "clearHookAuthFailure clientKey m = map_delete clientKey m"

text \<open>
  The only two writers of the table are \<open>recordHookAuthFailure\<close> and
  \<open>clearHookAuthFailure\<close>; a history of the table is a list of such calls applied to the
  empty map the handler is created with.
\<close>

datatype table_op = RecordFailure string int | ClearFailure string

fun applyTableOp :: "failure_map \<Rightarrow> table_op \<Rightarrow> failure_map" where
  "applyTableOp m (RecordFailure k nowMs) = snd (recordHookAuthFailure k nowMs m)"
| "applyTableOp m (ClearFailure k) = clearHookAuthFailure k m"

definition runTableOps :: "table_op list \<Rightarrow> failure_map" where
  "runTableOps ops = foldl applyTableOp [] ops"

section \<open>The hooks request handler (part\_000, createHooksRequestHandler)\<close>

text \<open>
  The request as the handler reads it: the parsed URL (\<open>new URL(req.url, ...)\<close>, whose
  parsing is the platform's), \<open>req.method\<close> and \<open>req.socket?.remoteAddress\<close>; headers and
  body stay in the opaque part \<open>rawRequest\<close>, which only the collaborators of
  \<open>./hooks.js\<close> read.
\<close>

record 'r HookRequest =
  pathname :: string
  searchParams :: "(string \<times> string) list"
  reqMethod :: "string option"
  socketRemoteAddress :: "string option"
  rawRequest :: 'r

datatype wake_mode = ModeNow | ModeNextHeartbeat

record WakePayload =
  wakeText :: string
  wakeMode :: wake_mode

text \<open>The value of \<open>normalizeAgentPayload\<close>; \<open>'c\<close> is \<open>HookMessageChannel\<close>.\<close>

record 'c AgentPayload =
  agentMessage :: string
  agentName :: string
  agentId :: "string option"
  agentWakeMode :: wake_mode
  agentSessionKey :: "string option"
  agentDeliver :: bool
  agentChannel :: 'c
  agentTo :: "string option"
  agentModel :: "string option"
  agentThinking :: "string option"
  agentTimeoutSeconds :: "nat option"
  agentAllowUnsafe :: "bool option"

text \<open>The argument of \<open>dispatchAgentHook\<close> (type \<open>HookDispatchers\<close>).\<close>

record 'c AgentDispatch =
  dMessage :: string
  dName :: string
  dAgentId :: "string option"
  dWakeMode :: wake_mode
  dSessionKey :: string
  dDeliver :: bool
  dChannel :: 'c
  dTo :: "string option"
  dModel :: "string option"
  dThinking :: "string option"
  dTimeoutSeconds :: "nat option"
  dAllowUnsafe :: "bool option"

text \<open>The agent action of a mapping, as the handler reads its fields.\<close>

record MappedAgent =
  mMessage :: string
  mName :: "string option"
  mAgentId :: "string option"
  mWakeMode :: wake_mode
  mSessionKey :: "string option"
  mDeliver :: "bool option"
  mChannel :: "string option"
  mTo :: "string option"
  mModel :: "string option"
  mThinking :: "string option"
  mTimeoutSeconds :: "nat option"
  mAllowUnsafe :: "bool option"

datatype mapped_action = ActionWake string wake_mode | ActionAgent MappedAgent

text \<open>
  What \<open>await applyHookMappings(...)\<close> does: it throws, or returns \<open>null\<close> (no mapping
  matched), \<open>{ok: false, error}\<close>, \<open>{ok: true, action: null}\<close> (a mapping matched and
  drops the request) or \<open>{ok: true, action}\<close>.
\<close>

datatype mapping_outcome =
    MappingThrew
  | MappingNone
  | MappingError string
  | MappingDrop
  | MappingAction mapped_action

datatype session_source = FromRequest | FromMapping

text \<open>
  Modelled from the spec: \<open>HooksConfigResolved\<close> is declared in \<open>./hooks.js\<close>, which is
  not among the sources. It holds the base path, the shared secret, the maximum body
  bytes and the ordered mapping rules, which the handler reads; the agent and session-key
  policies, which only the collaborators read, stay opaque.
\<close>

record ('m, 'p) HooksConfigResolved =
  basePath :: string
  cfgToken :: string
  maxBodyBytes :: nat
  mappings :: "'m list"
  policies :: 'p

text \<open>
  The collaborators the handler calls; their code is in \<open>./hooks.js\<close>,
  \<open>./hooks-mapping.js\<close> and \<open>../security/secret-equal.js\<close>, outside the sources at hand,
  so the handler is modelled for every behaviour they may have. A dispatcher may throw:
  \<open>dispatchWakeHook\<close> answers whether it completed, \<open>dispatchAgentHook\<close> answers the run
  id when it completed.
\<close>

record ('r, 'j, 'h, 'c, 'm, 'p) hook_deps =
  extractHookToken :: "'r HookRequest \<Rightarrow> string option"
  safeEqualSecret :: "string option \<Rightarrow> string \<Rightarrow> bool"
  readJsonBody :: "'r HookRequest \<Rightarrow> nat \<Rightarrow> string + 'j"
  isJsonObject :: "'j \<Rightarrow> bool"
  emptyJsonObject :: 'j
  normalizeHookHeaders :: "'r HookRequest \<Rightarrow> 'h"
  normalizeWakePayload :: "'j \<Rightarrow> string + WakePayload"
  normalizeAgentPayload :: "'j \<Rightarrow> string + 'c AgentPayload"
  isHookAgentAllowed :: "('m, 'p) HooksConfigResolved \<Rightarrow> string option \<Rightarrow> bool"
  getHookAgentPolicyError :: string
  getHookChannelError :: string
  resolveHookSessionKey ::
    "('m, 'p) HooksConfigResolved \<Rightarrow> session_source \<Rightarrow> string option \<Rightarrow> string + string"
  resolveHookTargetAgentId :: "('m, 'p) HooksConfigResolved \<Rightarrow> string option \<Rightarrow> string option"
  resolveHookChannel :: "string option \<Rightarrow> 'c option"
  resolveHookDeliver :: "bool option \<Rightarrow> bool"
  applyHookMappings :: "'m list \<Rightarrow> 'j \<Rightarrow> 'h \<Rightarrow> 'r HookRequest \<Rightarrow> string \<Rightarrow> mapping_outcome"
  dispatchWakeHook :: "WakePayload \<Rightarrow> bool"
  dispatchAgentHook :: "'c AgentDispatch \<Rightarrow> string option"

text \<open>The JSON bodies the handler sends.\<close>

datatype response_body =
    TextBody string
  | JsonError string
  | JsonWakeOk wake_mode
  | JsonAgentOk string
  | NoBody

datatype header_field =
    ContentType string
  | RetryAfter int
  | Allow string

record response =
  statusCode :: nat
  headerFields :: "header_field list"
  responseBody :: response_body

datatype log_line = HookAuthThrottled string int | HookMappingFailed

text \<open>
  What a run of the handler does, in order: responses sent, dispatch calls that
  completed (an agent dispatch with the run id it returned), dispatch calls that threw,
  warnings logged.
\<close>

datatype 'c hook_effect =
    SendResponse response
  | DispatchedWake WakePayload
  | DispatchedAgent "'c AgentDispatch" string
  | DispatchThrew
  | LogWarn log_line

text \<open>
  How the handler's promise settles: \<open>false\<close> (not a hooks request), \<open>true\<close>, or a
  rejection (an exception of a dispatcher that no \<open>catch\<close> of the handler covers;
  \<open>handleRequest\<close> turns it into 500).
\<close>

datatype handler_outcome = ReturnedFalse | ReturnedTrue | Rejected

definition sendJson :: "nat \<Rightarrow> response_body \<Rightarrow> 'c hook_effect" where
  "sendJson status body =
     SendResponse \<lparr>statusCode = status,
                   headerFields = [ContentType ''application/json; charset=utf-8''],
                   responseBody = body\<rparr>"

definition sendText :: "nat \<Rightarrow> header_field list \<Rightarrow> string \<Rightarrow> 'c hook_effect" where
  "sendText status extra body =
     SendResponse \<lparr>statusCode = status,
                   headerFields = extra @ [ContentType ''text/plain; charset=utf-8''],
                   responseBody = TextBody body\<rparr>"

text \<open>
  \<open>String.prototype.trim\<close> on a string of bytes: the ASCII white space and line
  terminators (TAB, LF, VT, FF, CR, SP). A socket address is ASCII.
\<close>

definition isJsSpace :: "char \<Rightarrow> bool" where
  "isJsSpace c = (c \<in> set [CHR 0x09, CHR 0x0A, CHR 0x0B, CHR 0x0C, CHR 0x0D, CHR 0x20])"

definition trim :: "string \<Rightarrow> string" where
  "trim s = rev (dropWhile isJsSpace (rev (dropWhile isJsSpace s)))"

text \<open>\<open>req.socket?.remoteAddress?.trim() || "unknown"\<close>\<close>

definition resolveHookClientKey :: "('r, 'x) HookRequest_scheme \<Rightarrow> string" where
  "resolveHookClientKey req =
     (case socketRemoteAddress req of
        None \<Rightarrow> ''unknown''
      | Some a \<Rightarrow> if trim a = [] then ''unknown'' else trim a)"

definition QUERY_TOKEN_MESSAGE :: string where
  "QUERY_TOKEN_MESSAGE =
     ''Hook token must be provided via Authorization: Bearer <token> or X-OpenClaw-Token header (query parameters are not allowed).''"

text \<open>\<open>url.searchParams.has(name)\<close>\<close>

definition searchParamsHas :: "string \<Rightarrow> ('r, 'x) HookRequest_scheme \<Rightarrow> bool" where
  "searchParamsHas name req = (name \<in> set (map fst (searchParams req)))"

text \<open>\<open>url.pathname.slice(basePath.length).replace(/^\\/+/, "")\<close>\<close>

definition subPathOf :: "string \<Rightarrow> string \<Rightarrow> string" where
  "subPathOf base path = dropWhile (\<lambda>c. c = CHR ''/'') (drop (length base) path)"

text \<open>The branch \<open>subPath === "wake"\<close>.\<close>

definition handleWake ::
  "('r, 'j, 'h, 'c, 'm, 'p) hook_deps \<Rightarrow> 'j \<Rightarrow> handler_outcome \<times> 'c hook_effect list" where
  "handleWake d payload =
     (case normalizeWakePayload d payload of
        Inl err \<Rightarrow> (ReturnedTrue, [sendJson 400 (JsonError err)])
      | Inr v \<Rightarrow>
          if dispatchWakeHook d v
          then (ReturnedTrue, [DispatchedWake v, sendJson 200 (JsonWakeOk (wakeMode v))])
          else (Rejected, [DispatchThrew]))"

text \<open>The branch \<open>subPath === "agent"\<close>.\<close>

definition handleAgent ::
  "('r, 'j, 'h, 'c, 'm, 'p) hook_deps \<Rightarrow> ('m, 'p) HooksConfigResolved \<Rightarrow> 'j
     \<Rightarrow> handler_outcome \<times> 'c hook_effect list" where
  "handleAgent d cfg payload =
     (case normalizeAgentPayload d payload of
        Inl err \<Rightarrow> (ReturnedTrue, [sendJson 400 (JsonError err)])
      | Inr v \<Rightarrow>
          if \<not> isHookAgentAllowed d cfg (agentId v)
          then (ReturnedTrue, [sendJson 400 (JsonError (getHookAgentPolicyError d))])
          else
            (case resolveHookSessionKey d cfg FromRequest (agentSessionKey v) of
               Inl err \<Rightarrow> (ReturnedTrue, [sendJson 400 (JsonError err)])
             | Inr key \<Rightarrow>
                 (let arg = \<lparr>dMessage = agentMessage v, dName = agentName v,
                             dAgentId = resolveHookTargetAgentId d cfg (agentId v),
                             dWakeMode = agentWakeMode v, dSessionKey = key,
                             dDeliver = agentDeliver v, dChannel = agentChannel v,
                             dTo = agentTo v, dModel = agentModel v,
                             dThinking = agentThinking v,
                             dTimeoutSeconds = agentTimeoutSeconds v,
                             dAllowUnsafe = agentAllowUnsafe v\<rparr>
                  in case dispatchAgentHook d arg of
                       None \<Rightarrow> (Rejected, [DispatchThrew])
                     | Some runId \<Rightarrow>
                         (ReturnedTrue,
                          [DispatchedAgent arg runId, sendJson 202 (JsonAgentOk runId)]))))"

text \<open>
  The \<open>catch\<close> of the mapping block: a warning and 500. It covers
  \<open>applyHookMappings\<close> and the dispatch calls inside the \<open>try\<close>.
\<close>

definition mappingFailed :: "'c hook_effect list \<Rightarrow> handler_outcome \<times> 'c hook_effect list" where
  "mappingFailed before =
     (ReturnedTrue,
      before @ [LogWarn HookMappingFailed, sendJson 500 (JsonError ''hook mapping failed'')])"

definition notFound :: "handler_outcome \<times> 'c hook_effect list" where
  "notFound = (ReturnedTrue, [sendText 404 [] ''Not Found''])"

text \<open>The block \<open>if (hooksConfig.mappings.length > 0) { try { ... } catch { ... } }\<close>.\<close>

definition handleMapped ::
  "('r, 'j, 'h, 'c, 'm, 'p) hook_deps \<Rightarrow> ('m, 'p) HooksConfigResolved \<Rightarrow> 'r HookRequest
     \<Rightarrow> 'j \<Rightarrow> 'h \<Rightarrow> string \<Rightarrow> handler_outcome \<times> 'c hook_effect list" where
  "handleMapped d cfg req payload headers subPath =
     (if length (mappings cfg) > 0 then
        (case applyHookMappings d (mappings cfg) payload headers req subPath of
           MappingThrew \<Rightarrow> mappingFailed []
         | MappingNone \<Rightarrow> notFound
         | MappingError err \<Rightarrow> (ReturnedTrue, [sendJson 400 (JsonError err)])
         | MappingDrop \<Rightarrow>
             (ReturnedTrue,
              [SendResponse \<lparr>statusCode = 204, headerFields = [], responseBody = NoBody\<rparr>])
         | MappingAction (ActionWake txt md) \<Rightarrow>
             (let v = \<lparr>wakeText = txt, wakeMode = md\<rparr>
              in if dispatchWakeHook d v
                 then (ReturnedTrue, [DispatchedWake v, sendJson 200 (JsonWakeOk md)])
                 else mappingFailed [DispatchThrew])
         | MappingAction (ActionAgent a) \<Rightarrow>
             (case resolveHookChannel d (mChannel a) of
                None \<Rightarrow> (ReturnedTrue, [sendJson 400 (JsonError (getHookChannelError d))])
              | Some channel \<Rightarrow>
                  if \<not> isHookAgentAllowed d cfg (mAgentId a)
                  then (ReturnedTrue, [sendJson 400 (JsonError (getHookAgentPolicyError d))])
                  else
                    (case resolveHookSessionKey d cfg FromMapping (mSessionKey a) of
                       Inl err \<Rightarrow> (ReturnedTrue, [sendJson 400 (JsonError err)])
                     | Inr key \<Rightarrow>
                         (let arg = \<lparr>dMessage = mMessage a,
                                     dName = (case mName a of None \<Rightarrow> ''Hook'' | Some n \<Rightarrow> n),
                                     dAgentId = resolveHookTargetAgentId d cfg (mAgentId a),
                                     dWakeMode = mWakeMode a, dSessionKey = key,
                                     dDeliver = resolveHookDeliver d (mDeliver a),
                                     dChannel = channel, dTo = mTo a, dModel = mModel a,
                                     dThinking = mThinking a,
                                     dTimeoutSeconds = mTimeoutSeconds a,
                                     dAllowUnsafe = mAllowUnsafe a\<rparr>
                          in case dispatchAgentHook d arg of
                               None \<Rightarrow> mappingFailed [DispatchThrew]
                             | Some runId \<Rightarrow>
                                 (ReturnedTrue,
                                  [DispatchedAgent arg runId,
                                   sendJson 202 (JsonAgentOk runId)])))))
      else notFound)"

text \<open>The handler from \<open>if (req.method !== "POST")\<close> on: the token has been accepted.\<close>

definition handleAuthorized ::
  "('r, 'j, 'h, 'c, 'm, 'p) hook_deps \<Rightarrow> ('m, 'p) HooksConfigResolved \<Rightarrow> 'r HookRequest
     \<Rightarrow> handler_outcome \<times> 'c hook_effect list" where
  "handleAuthorized d cfg req =
     (if reqMethod req \<noteq> Some ''POST''
      then (ReturnedTrue, [sendText 405 [Allow ''POST''] ''Method Not Allowed''])
      else
        (let subPath = subPathOf (basePath cfg) (pathname req) in
         if subPath = [] then notFound
         else
           (case readJsonBody d req (maxBodyBytes cfg) of
              Inl err \<Rightarrow>
                (let status = (if err = ''payload too large'' then 413
                               else if err = ''request body timeout'' then 408
                               else 400)
                 in (ReturnedTrue, [sendJson status (JsonError err)]))
            | Inr val \<Rightarrow>
                (let payload = (if isJsonObject d val then val else emptyJsonObject d);
                     headers = normalizeHookHeaders d req
                 in if subPath = ''wake'' then handleWake d payload
                    else if subPath = ''agent'' then handleAgent d cfg payload
                    else handleMapped d cfg req payload headers subPath))))"

text \<open>
  The returned handler. \<open>nowMs\<close> is what \<open>Date.now()\<close> answers; the failure table is the
  closure's \<open>hookAuthFailures\<close>, passed in and returned.
\<close>

definition hooksRequestHandler ::
  "('r, 'j, 'h, 'c, 'm, 'p) hook_deps \<Rightarrow> ('m, 'p) HooksConfigResolved option
     \<Rightarrow> 'r HookRequest \<Rightarrow> int \<Rightarrow> failure_map
     \<Rightarrow> handler_outcome \<times> 'c hook_effect list \<times> failure_map" where
  "hooksRequestHandler d hooksConfig req nowMs table =
     (case hooksConfig of
        None \<Rightarrow> (ReturnedFalse, [], table)
      | Some cfg \<Rightarrow>
          if pathname req \<noteq> basePath cfg \<and> \<not> prefix (basePath cfg @ ''/'') (pathname req)
          then (ReturnedFalse, [], table)
          else if searchParamsHas ''token'' req
          then (ReturnedTrue, [sendText 400 [] QUERY_TOKEN_MESSAGE], table)
          else
            (let token = extractHookToken d req;
                 clientKey = resolveHookClientKey req
             in if \<not> safeEqualSecret d token (cfgToken cfg) then
                  (case recordHookAuthFailure clientKey nowMs table of
                     (throttle, table') \<Rightarrow>
                       if throttled throttle then
                         (let retryAfter =
                                (case retryAfterSeconds throttle of None \<Rightarrow> 1 | Some s \<Rightarrow> s)
                          in (ReturnedTrue,
                              [sendText 429 [RetryAfter retryAfter] ''Too Many Requests'',
                               LogWarn (HookAuthThrottled clientKey retryAfter)],
                              table'))
                       else (ReturnedTrue, [sendText 401 [] ''Unauthorized''], table'))
                else
                  (case handleAuthorized d cfg req of
                     (outcome, effects) \<Rightarrow>
                       (outcome, effects, clearHookAuthFailure clientKey table))))"


subsection \<open>The failure table: eviction in the words of the specification, the invariant\<close>

text \<open>
  Eviction as the specification words it: every entry whose window has elapsed is pruned,
  then, if the table is still at capacity, the oldest half in insertion order is dropped.
\<close>

definition keepAfterEviction :: "int \<Rightarrow> failure_map \<Rightarrow> failure_map" where
  "keepAfterEviction nowMs m =
     (let live = filter (\<lambda>p. \<not> windowElapsed nowMs (snd p)) m
      in if length live \<ge> HOOK_AUTH_FAILURE_TRACK_MAX then drop (length live div 2) live else live)"

text \<open>The invariant of the table: keys occur once, and at most the capacity are held.\<close>

definition table_ok :: "failure_map \<Rightarrow> bool" where
  "table_ok m = (distinct (map fst m) \<and> length m \<le> HOOK_AUTH_FAILURE_TRACK_MAX)"

subsection \<open>A history that fills the failure table\<close>

text \<open>
  A history that fills the table: \<open>n\<close> clients \<open>x\<close>, \<open>xx\<close>, \<open>xxx\<close>, ... fail once
  each at time 0.
\<close>

definition fillKey :: "nat \<Rightarrow> string" where
  "fillKey i = replicate (Suc i) (CHR ''x'')"

definition fillOps :: "nat \<Rightarrow> table_op list" where
  "fillOps n = map (\<lambda>i. RecordFailure (fillKey i) 0) [0..<n]"

definition fillTable :: "nat \<Rightarrow> failure_map" where
  "fillTable n = map (\<lambda>i. (fillKey i, \<lparr>count = 1, windowStartedAtMs = 0\<rparr>)) [0..<n]"

subsection \<open>Observations of a run of the hooks handler\<close>

text \<open>Observations of a run: the status codes sent, and the \<open>Retry-After\<close> values sent.\<close>

fun sentStatuses :: "'c hook_effect list \<Rightarrow> nat list" where
  "sentStatuses [] = []"
| "sentStatuses (SendResponse r # es) = statusCode r # sentStatuses es"
| "sentStatuses (e # es) = sentStatuses es"



text \<open>The request is under the hooks base path (the handler's second early return).\<close>

definition isHooksPath :: "('m, 'p, 'y) HooksConfigResolved_scheme \<Rightarrow> ('r, 'x) HookRequest_scheme \<Rightarrow> bool" where
  "isHooksPath cfg req =
     (pathname req = basePath cfg \<or> prefix (basePath cfg @ ''/'') (pathname req))"

text \<open>
  A hooks request that reaches the token comparison and fails it: under the base path,
  no \<open>token\<close> query parameter, and \<open>safeEqualSecret\<close> answers false.
\<close>

definition wrongTokenRequest ::
  "('r, 'j, 'h, 'c, 'm, 'p) hook_deps \<Rightarrow> ('m, 'p) HooksConfigResolved \<Rightarrow> 'r HookRequest \<Rightarrow> bool" where
  "wrongTokenRequest d cfg req =
     (isHooksPath cfg req \<and> \<not> searchParamsHas ''token'' req
      \<and> \<not> safeEqualSecret d (extractHookToken d req) (cfgToken cfg))"




text \<open>What \<open>recordHookAuthFailure\<close> answers once the entry \<open>next\<close> is known.\<close>

definition throttleOf :: "int \<Rightarrow> HookAuthFailure \<Rightarrow> throttle_result" where
  "throttleOf nowMs nxt =
     (if count nxt \<le> HOOK_AUTH_FAILURE_LIMIT
      then \<lparr>throttled = False, retryAfterSeconds = None\<rparr>
      else \<lparr>throttled = True,
            retryAfterSeconds =
              Some (ceilDiv1000 (max 1 (windowStartedAtMs nxt + HOOK_AUTH_FAILURE_WINDOW_MS - nowMs)))\<rparr>)"

text \<open>What the handler does after a failed comparison, given the throttle answer.\<close>

definition authFailureEffects :: "string \<Rightarrow> throttle_result \<Rightarrow> 'c hook_effect list" where
  "authFailureEffects k thr =
     (if throttled thr then
        (let retryAfter = (case retryAfterSeconds thr of None \<Rightarrow> 1 | Some s \<Rightarrow> s)
         in [sendText 429 [RetryAfter retryAfter] ''Too Many Requests'',
             LogWarn (HookAuthThrottled k retryAfter)])
      else [sendText 401 [] ''Unauthorized''])"


subsection \<open>Example collaborators and requests of the hooks handler\<close>

text \<open>
  One concrete set of collaborators: the presented token is the opaque part of the
  request, secrets are compared by equality, every body is an object, wake payloads
  normalise, agent payloads are refused, mappings drop.
\<close>

definition exampleDeps :: "(string option, string, unit, string, unit, unit) hook_deps" where
  "exampleDeps =
     \<lparr>extractHookToken = rawRequest,
      safeEqualSecret = (\<lambda>presented secret. presented = Some secret),
      readJsonBody = (\<lambda>req cap. Inr ''{}''),
      isJsonObject = (\<lambda>j. True),
      emptyJsonObject = ''{}'',
      normalizeHookHeaders = (\<lambda>req. ()),
      normalizeWakePayload = (\<lambda>j. Inr \<lparr>wakeText = ''ping'', wakeMode = ModeNow\<rparr>),
      normalizeAgentPayload = (\<lambda>j. Inl ''message required''),
      isHookAgentAllowed = (\<lambda>cfg a. True),
      getHookAgentPolicyError = ''agentId is not allowed by hooks.allowedAgentIds'',
      getHookChannelError = ''channel is not supported'',
      resolveHookSessionKey = (\<lambda>cfg src key. Inr ''hook:session''),
      resolveHookTargetAgentId = (\<lambda>cfg a. a),
      resolveHookChannel = (\<lambda>c. c),
      resolveHookDeliver = (\<lambda>b. b \<noteq> Some False),
      applyHookMappings = (\<lambda>ms payload headers req subPath. MappingDrop),
      dispatchWakeHook = (\<lambda>v. True),
      dispatchAgentHook = (\<lambda>a. Some ''run-1'')\<rparr>"

definition exampleConfig :: "(unit, unit) HooksConfigResolved" where
  "exampleConfig =
     \<lparr>basePath = ''/hooks'', cfgToken = ''s3cret'', maxBodyBytes = 262144,
      mappings = [()], policies = ()\<rparr>"

definition exampleRequest :: "string \<Rightarrow> string option \<Rightarrow> string option HookRequest" where
  "exampleRequest path presented =
     \<lparr>pathname = path, searchParams = [], reqMethod = Some ''POST'',
      socketRemoteAddress = Some ''203.0.113.7'', rawRequest = presented\<rparr>"













subsection \<open>Dispatch calls and status codes of a trace\<close>

text \<open>A dispatch call in the trace, completed or not.\<close>

fun isDispatch :: "'c hook_effect \<Rightarrow> bool" where
  "isDispatch (DispatchedWake v) = True"
| "isDispatch (DispatchedAgent a r) = True"
| "isDispatch DispatchThrew = True"
| "isDispatch (SendResponse r) = False"
| "isDispatch (LogWarn l) = False"

text \<open>
  Every response of the trace whose status satisfies \<open>P\<close> is sent after a dispatch call
  of the trace has completed; \<open>seen\<close> says whether one completed before the trace.
\<close>

fun respondsAfterDispatch :: "(nat \<Rightarrow> bool) \<Rightarrow> bool \<Rightarrow> 'c hook_effect list \<Rightarrow> bool" where
  "respondsAfterDispatch P seen [] = True"
| "respondsAfterDispatch P seen (SendResponse r # es) =
     ((P (statusCode r) \<longrightarrow> seen) \<and> respondsAfterDispatch P seen es)"
| "respondsAfterDispatch P seen (DispatchedWake v # es) = respondsAfterDispatch P True es"
| "respondsAfterDispatch P seen (DispatchedAgent a r # es) = respondsAfterDispatch P True es"
| "respondsAfterDispatch P seen (DispatchThrew # es) = respondsAfterDispatch P seen es"
| "respondsAfterDispatch P seen (LogWarn l # es) = respondsAfterDispatch P seen es"

definition is2xx :: "nat \<Rightarrow> bool" where
  "is2xx s = (200 \<le> s \<and> s < 300)"

definition is4xx :: "nat \<Rightarrow> bool" where
  "is4xx s = (400 \<le> s \<and> s < 500)"

text \<open>The trace of one run of the handler.\<close>

definition hookEffects ::
  "('r, 'j, 'h, 'c, 'm, 'p) hook_deps \<Rightarrow> ('m, 'p) HooksConfigResolved option
     \<Rightarrow> 'r HookRequest \<Rightarrow> int \<Rightarrow> failure_map \<Rightarrow> 'c hook_effect list" where
  "hookEffects d hooksConfig req nowMs table =
     fst (snd (hooksRequestHandler d hooksConfig req nowMs table))"

text \<open>
  The property the handler's effects are checked against: responses 200 and 202 come
  after a completed dispatch, the only other 2xx is 204, and a trace with a 4xx or a 204
  has no dispatch call.
\<close>

definition dispatchDiscipline :: "'c hook_effect list \<Rightarrow> bool" where
  "dispatchDiscipline es =
     (respondsAfterDispatch (\<lambda>s. s = 200 \<or> s = 202) False es
      \<and> (\<forall>s \<in> set (sentStatuses es). is2xx s \<longrightarrow> s = 200 \<or> s = 202 \<or> s = 204)
      \<and> ((\<exists>s \<in> set (sentStatuses es). is4xx s \<or> s = 204) \<longrightarrow> filter isDispatch es = []))"

subsection \<open>Requests by what the token comparison answers, requests without a socket address\<close>

text \<open>A request that reaches the token comparison and passes it.\<close>

definition rightTokenRequest ::
  "('r, 'j, 'h, 'c, 'm, 'p) hook_deps \<Rightarrow> ('m, 'p) HooksConfigResolved \<Rightarrow> 'r HookRequest \<Rightarrow> bool" where
  "rightTokenRequest d cfg req =
     (isHooksPath cfg req \<and> \<not> searchParamsHas ''token'' req
      \<and> safeEqualSecret d (extractHookToken d req) (cfgToken cfg))"

text \<open>The socket has no remote address, or one that is white space only.\<close>

definition noRemoteAddress :: "('r, 'x) HookRequest_scheme \<Rightarrow> bool" where
  "noRemoteAddress req =
     (case socketRemoteAddress req of None \<Rightarrow> True | Some a \<Rightarrow> list_all isJsSpace a)"

section \<open>The framebuffer proxy (src/gateway/vnc-proxy.ts, attachVncProxy)\<close>

type_synonym byte = "8 word"

text \<open>
  The payload of a WebSocket \<open>message\<close> event, by the cases the handler tells apart: a
  \<open>Buffer\<close>, an \<open>ArrayBuffer\<close>, an array of buffers, or anything else, which the handler
  turns into a string (\<open>'s\<close>) and encodes.
\<close>

datatype 's ws_payload =
    SingleBuffer "byte list"
  | ArrayBufferData "byte list"
  | BufferArray "byte list list"
  | OtherData 's

text \<open>
  The closure's variables \<open>upstream\<close> (non-null or null) and \<open>wsOpen\<close>, and the two flags
  of the platform's objects that the handlers read: \<open>upstream.destroyed\<close> of the socket
  made by \<open>createConnection\<close>, and \<open>ws.readyState\<close> (0 connecting, 1 open, 2 closing,
  3 closed).
\<close>

record proxy_state =
  upstreamSet :: bool
  socketDestroyed :: bool
  wsOpen :: bool
  wsReadyState :: nat

text \<open>After \<open>attachVncProxy\<close> has run: the socket is made, the WebSocket is open.\<close>

definition proxyInit :: proxy_state where
  "proxyInit = \<lparr>upstreamSet = True, socketDestroyed = False, wsOpen = True, wsReadyState = 1\<rparr>"

text \<open>
  The events of a session. The six listeners of \<open>attachVncProxy\<close>; a \<open>data\<close> or
  \<open>message\<close> event says whether the \<open>ws.send\<close> or \<open>upstream.write\<close> it leads to throws.
  The last two are the platform's own moves on the flags: the socket is destroyed by the
  platform (as before it emits \<open>error\<close>), and \<open>ws.readyState\<close> moves forward.
\<close>

datatype 's proxy_event =
    UpstreamData "byte list" bool
  | UpstreamClose
  | UpstreamError
  | WsMessage "'s ws_payload" bool
  | WsClose
  | WsError
  | PlatformDestroysSocket
  | PlatformAdvancesWs nat

text \<open>The calls the handlers make on the two sides (logging is left out).\<close>

datatype proxy_effect =
    WsSendBinary "byte list"
  | UpstreamWrite "byte list"
  | UpstreamDestroy
  | WsCloseCall

text \<open>
  \<open>function cleanup()\<close>. \<open>upstream.destroy()\<close> sets the socket's \<open>destroyed\<close> flag;
  \<open>ws.close()\<close> on a WebSocket that is not yet closing moves it to closing, and
  \<open>wsOpen = false\<close> follows whether or not \<open>ws.close()\<close> threw.
\<close>

definition cleanup :: "proxy_state \<Rightarrow> proxy_state \<times> proxy_effect list" where
  "cleanup s =
     (let (s1, e1) =
            (if upstreamSet s \<and> \<not> socketDestroyed s
             then (s\<lparr>socketDestroyed := True, upstreamSet := False\<rparr>, [UpstreamDestroy])
             else (s, []));
          (s2, e2) =
            (if wsOpen s1 \<and> wsReadyState s1 < 2
             then (s1\<lparr>wsReadyState := 2, wsOpen := False\<rparr>, [WsCloseCall])
             else (s1, []))
      in (s2, e1 @ e2))"

text \<open>
  The chain of conditionals of the \<open>message\<close> listener: \<open>Buffer.isBuffer(data) ? data :
  data instanceof ArrayBuffer ? Buffer.from(data) : Array.isArray(data) ?
  Buffer.concat(data) : Buffer.from(String(data))\<close>. \<open>enc\<close> is the platform's
  \<open>Buffer.from(String(x))\<close>.
\<close>

fun coalesce :: "('s \<Rightarrow> byte list) \<Rightarrow> 's ws_payload \<Rightarrow> byte list" where
  "coalesce enc (SingleBuffer b) = b"
| "coalesce enc (ArrayBufferData b) = b"
| "coalesce enc (BufferArray bs) = concat bs"
| "coalesce enc (OtherData x) = enc x"

text \<open>
  One event. The platform emits \<open>close\<close> on a socket only once it is destroyed, and
  \<open>close\<close> on a WebSocket only once it is closed; the listeners then run.
\<close>

fun proxyStep ::
  "('s \<Rightarrow> byte list) \<Rightarrow> proxy_state \<Rightarrow> 's proxy_event \<Rightarrow> proxy_state \<times> proxy_effect list" where
  "proxyStep enc s (UpstreamData chunk throws) =
     (if wsOpen s \<and> wsReadyState s = 1
      then (if throws
            then (case cleanup s of (s', es) \<Rightarrow> (s', WsSendBinary chunk # es))
            else (s, [WsSendBinary chunk]))
      else (s, []))"
| "proxyStep enc s UpstreamClose = cleanup (s\<lparr>socketDestroyed := True\<rparr>)"
| "proxyStep enc s UpstreamError = cleanup s"
| "proxyStep enc s (WsMessage payload throws) =
     (if upstreamSet s \<and> \<not> socketDestroyed s
      then (if throws
            then (case cleanup s of (s', es) \<Rightarrow> (s', UpstreamWrite (coalesce enc payload) # es))
            else (s, [UpstreamWrite (coalesce enc payload)]))
      else (s, []))"
| "proxyStep enc s WsClose = cleanup (s\<lparr>wsReadyState := 3, wsOpen := False\<rparr>)"
| "proxyStep enc s WsError = cleanup s"
| "proxyStep enc s PlatformDestroysSocket = (s\<lparr>socketDestroyed := True\<rparr>, [])"
| "proxyStep enc s (PlatformAdvancesWs n) = (s\<lparr>wsReadyState := max (wsReadyState s) n\<rparr>, [])"

fun proxyRun ::
  "('s \<Rightarrow> byte list) \<Rightarrow> proxy_state \<Rightarrow> 's proxy_event list \<Rightarrow> proxy_state \<times> proxy_effect list" where
  "proxyRun enc s [] = (s, [])"
| "proxyRun enc s (e # es) =
     (case proxyStep enc s e of
        (s1, out1) \<Rightarrow> (case proxyRun enc s1 es of (s2, out2) \<Rightarrow> (s2, out1 @ out2)))"

subsection \<open>Observations of a proxy session\<close>

text \<open>The events that report a close or an error of a side.\<close>

fun isTeardownEvent :: "'s proxy_event \<Rightarrow> bool" where
  "isTeardownEvent UpstreamClose = True"
| "isTeardownEvent UpstreamError = True"
| "isTeardownEvent WsClose = True"
| "isTeardownEvent WsError = True"
| "isTeardownEvent e = False"

fun isWrite :: "proxy_effect \<Rightarrow> bool" where
  "isWrite (WsSendBinary b) = True"
| "isWrite (UpstreamWrite b) = True"
| "isWrite e = False"

text \<open>The socket can be written to; the WebSocket can be sent to or closed.\<close>

definition upstreamAlive :: "proxy_state \<Rightarrow> bool" where
  "upstreamAlive s = (upstreamSet s \<and> \<not> socketDestroyed s)"

definition wsClosable :: "proxy_state \<Rightarrow> bool" where
  "wsClosable s = (wsOpen s \<and> wsReadyState s < 2)"

definition tornDown :: "proxy_state \<Rightarrow> bool" where
  "tornDown s = (\<not> upstreamAlive s \<and> \<not> wsClosable s)"

text \<open>How many calls of \<open>upstream.destroy()\<close> and of \<open>ws.close()\<close> a session can still make.\<close>

definition destroyBudget :: "proxy_state \<Rightarrow> nat" where
  "destroyBudget s = (if upstreamAlive s then 1 else 0)"

definition closeBudget :: "proxy_state \<Rightarrow> nat" where
  "closeBudget s = (if wsClosable s then 1 else 0)"

subsection \<open>An example session\<close>

text \<open>An encoder of strings, byte by byte, and a session with traffic, errors and closes.\<close>

definition exampleEnc :: "string \<Rightarrow> byte list" where
  "exampleEnc x = map (\<lambda>c. of_nat (of_char c)) x"

definition exampleSession :: "string proxy_event list" where
  "exampleSession =
     [WsMessage (SingleBuffer [1, 2, 3]) False, UpstreamData [255] False, WsError,
      UpstreamError, UpstreamClose, WsClose, WsMessage (SingleBuffer [4]) False,
      UpstreamData [5] False, WsError]"

section \<open>Machine-scoped authorization (part\_000, authorizeMachineScopedRequest)\<close>

text \<open>
  Modelled from the spec: the types \<open>GatewayAuthResult\<close> and \<open>ResolvedGatewayAuth\<close> are
  declared in \<open>./auth.js\<close>, which is not among the sources. The result is \<open>ok\<close>,
  \<open>unauthorized\<close> or \<open>rate_limited\<close> with a retry delay, held in the fields that part\_000
  reads and writes (\<open>ok\<close>, \<open>reason\<close>, \<open>rateLimited\<close>, \<open>retryAfterMs\<close>); of the resolved
  auth only the permissive flag \<open>allowTailscale\<close> is touched, the secrets stay opaque.
  \<open>GatewayWsClient\<close> (\<open>./server/ws-types.js\<close>) is read for \<open>clientIp\<close> only.
\<close>

record GatewayAuthResult =
  authOk :: bool
  authReason :: "string option"
  rateLimited :: bool
  retryAfterMs :: "int option"

record 'a ResolvedGatewayAuth =
  allowTailscale :: bool
  authSecrets :: 'a

record GatewayWsClient =
  clientIp :: "string option"

record 'q GatewayRequest =
  remoteAddress :: "string option"
  requestRest :: 'q

text \<open>
  The collaborators of \<open>./auth.js\<close>, \<open>./http-utils.js\<close> and \<open>./net.js\<close>, whose code is
  outside the sources at hand: the authorizer is modelled for every behaviour they may
  have. \<open>authorizeGatewayConnect\<close> takes the auth, the pair \<open>{token, password}\<close>, the
  request, the trusted proxies and the optional rate limiter (\<open>'l\<close>).
\<close>

record ('q, 'a, 'l) auth_deps =
  isLocalDirectRequest :: "'q GatewayRequest \<Rightarrow> string list \<Rightarrow> bool"
  getBearerToken :: "'q GatewayRequest \<Rightarrow> string option"
  authorizeGatewayConnect ::
    "'a ResolvedGatewayAuth \<Rightarrow> string \<times> string \<Rightarrow> 'q GatewayRequest \<Rightarrow> string list
       \<Rightarrow> 'l option \<Rightarrow> GatewayAuthResult"
  getHeader :: "'q GatewayRequest \<Rightarrow> string \<Rightarrow> string option"
  resolveGatewayClientIp ::
    "string \<Rightarrow> string option \<Rightarrow> string option \<Rightarrow> string list \<Rightarrow> string option"
  isPrivateOrLoopbackAddress :: "string \<Rightarrow> bool"

text \<open>\<open>{ ok: true }\<close> and \<open>{ ok: false, reason: "unauthorized" }\<close>\<close>

definition authGranted :: GatewayAuthResult where
  "authGranted = \<lparr>authOk = True, authReason = None, rateLimited = False, retryAfterMs = None\<rparr>"

definition authUnauthorized :: GatewayAuthResult where
  "authUnauthorized =
     \<lparr>authOk = False, authReason = Some ''unauthorized'', rateLimited = False,
      retryAfterMs = None\<rparr>"

text \<open>The loop over the \<open>Set\<close> of clients; \<open>client.clientIp &&\<close> skips a missing or empty IP.\<close>

fun hasAuthorizedWsClientForIp :: "GatewayWsClient list \<Rightarrow> string \<Rightarrow> bool" where
  "hasAuthorizedWsClientForIp [] ip = False"
| "hasAuthorizedWsClientForIp (client # clients) ip =
     (if (case clientIp client of None \<Rightarrow> False | Some a \<Rightarrow> a \<noteq> [] \<and> a = ip)
      then True
      else hasAuthorizedWsClientForIp clients ip)"

text \<open>
  The block \<open>if (token) { ... }\<close>: the answer of \<open>authorizeGatewayConnect\<close> with
  \<open>allowTailscale\<close> off and the bearer token as token and password, when a non-empty
  bearer token is presented.
\<close>

definition bearerAttempt ::
  "('q, 'a, 'l) auth_deps \<Rightarrow> 'q GatewayRequest \<Rightarrow> 'a ResolvedGatewayAuth \<Rightarrow> string list
     \<Rightarrow> 'l option \<Rightarrow> GatewayAuthResult option" where
  "bearerAttempt d req auth trustedProxies rateLimiter =
     (case getBearerToken d req of
        None \<Rightarrow> None
      | Some token \<Rightarrow>
          if token = [] then None
          else Some (authorizeGatewayConnect d (auth\<lparr>allowTailscale := False\<rparr>) (token, token)
                       req trustedProxies rateLimiter))"

text \<open>The call of \<open>resolveGatewayClientIp\<close> with the socket address and the two headers.\<close>

definition effectiveClientIp ::
  "('q, 'a, 'l) auth_deps \<Rightarrow> 'q GatewayRequest \<Rightarrow> string list \<Rightarrow> string option" where
  "effectiveClientIp d req trustedProxies =
     resolveGatewayClientIp d
       (case remoteAddress req of None \<Rightarrow> [] | Some a \<Rightarrow> a)
       (getHeader d req ''x-forwarded-for'')
       (getHeader d req ''x-real-ip'')
       trustedProxies"

text \<open>
  The tail of the function, from \<open>const clientIp = resolveGatewayClientIp(...)\<close> on;
  \<open>failure\<close> is \<open>lastAuthFailure ?? { ok: false, reason: "unauthorized" }\<close>.
\<close>

definition siblingFallback ::
  "('q, 'a, 'l) auth_deps \<Rightarrow> 'q GatewayRequest \<Rightarrow> string list \<Rightarrow> GatewayWsClient list
     \<Rightarrow> GatewayAuthResult \<Rightarrow> GatewayAuthResult" where
  "siblingFallback d req trustedProxies clients failure =
     (case effectiveClientIp d req trustedProxies of
        None \<Rightarrow> failure
      | Some ip \<Rightarrow>
          if ip = [] then failure
          else if \<not> isPrivateOrLoopbackAddress d ip then failure
          else if hasAuthorizedWsClientForIp clients ip then authGranted
          else failure)"

definition authorizeMachineScopedRequest ::
  "('q, 'a, 'l) auth_deps \<Rightarrow> 'q GatewayRequest \<Rightarrow> 'a ResolvedGatewayAuth \<Rightarrow> string list
     \<Rightarrow> GatewayWsClient list \<Rightarrow> 'l option \<Rightarrow> GatewayAuthResult" where
  "authorizeMachineScopedRequest d req auth trustedProxies clients rateLimiter =
     (if isLocalDirectRequest d req trustedProxies then authGranted
      else
        (case bearerAttempt d req auth trustedProxies rateLimiter of
           None \<Rightarrow> siblingFallback d req trustedProxies clients authUnauthorized
         | Some authResult \<Rightarrow>
             if authOk authResult then authResult
             else siblingFallback d req trustedProxies clients authResult))"

subsection \<open>Observations of an authorization, example collaborators\<close>

text \<open>A bearer credential was presented and accepted.\<close>

definition bearerAccepted ::
  "('q, 'a, 'l) auth_deps \<Rightarrow> 'q GatewayRequest \<Rightarrow> 'a ResolvedGatewayAuth \<Rightarrow> string list
     \<Rightarrow> 'l option \<Rightarrow> bool" where
  "bearerAccepted d req auth trustedProxies rateLimiter =
     (case bearerAttempt d req auth trustedProxies rateLimiter of
        Some r \<Rightarrow> authOk r
      | None \<Rightarrow> False)"

text \<open>The registry holds a connection whose IP is \<open>ip\<close>.\<close>

definition registryHolds :: "GatewayWsClient list \<Rightarrow> string \<Rightarrow> bool" where
  "registryHolds clients ip = (\<exists>c \<in> set clients. clientIp c = Some ip)"

text \<open>
  Example collaborators: a request is local when it comes from 127.0.0.1, the bearer
  token is the opaque part of the request, no forwarding headers, private addresses are
  127.0.0.1 and 192.168.x.x.
\<close>

definition exampleAuthDeps :: "(string option, unit, unit) auth_deps" where
  "exampleAuthDeps =
     \<lparr>isLocalDirectRequest = (\<lambda>req proxies. remoteAddress req = Some ''127.0.0.1''),
      getBearerToken = requestRest,
      authorizeGatewayConnect =
        (\<lambda>auth cred req proxies limiter.
           if fst cred = ''s3cret'' then authGranted else authUnauthorized),
      getHeader = (\<lambda>req name. None),
      resolveGatewayClientIp =
        (\<lambda>remote forwarded real proxies. if remote = [] then None else Some remote),
      isPrivateOrLoopbackAddress = (\<lambda>ip. ip = ''127.0.0.1'' \<or> prefix ''192.168.'' ip)\<rparr>"

definition exampleAuth :: "unit ResolvedGatewayAuth" where
  "exampleAuth = \<lparr>allowTailscale = True, authSecrets = ()\<rparr>"

definition requestFrom :: "string \<Rightarrow> string option GatewayRequest" where
  "requestFrom addr = \<lparr>remoteAddress = Some addr, requestRest = None\<rparr>"

section \<open>noVNC asset paths and the handler chain (part\_000, isSafeNoVncAssetPath, handleRequest)\<close>














subsection \<open>The handler chain of \<open>handleRequest\<close>\<close>





















subsection \<open>The path conditions in the words of the specification, observations\<close>







subsection \<open>Observations of the chain, example gateway\<close>












section \<open>The display supervisor (src/gateway/vnc-process-manager.ts, VncProcessManager)\<close>

datatype proc_kind = Xvfb | X11vnc

text \<open>
  The callbacks the class hands to \<open>setTimeout\<close>: the 5 s restart of a kind (in
  \<open>scheduleRestart\<close>); the 2 s follow-up that restarts x11vnc after Xvfb was restarted
  (the inner \<open>setTimeout\<close> of the restart callback); and the two resumptions of
  \<open>start()\<close> inside \<open>waitForDisplay\<close>, after the 100 ms poll and after the 200 ms grace.
\<close>

datatype timer_callback =
    RestartCallback proc_kind
  | FollowUpCallback
  | WaitPollCallback
  | WaitGraceCallback

text \<open>
  The fields of the class that the lifecycle touches (\<open>xvfb\<close>, \<open>x11vnc\<close>: the child handle
  is non-null), \<open>restartTimers\<close> as the insertion-ordered \<open>Map\<close> from kind to timer, and the
  platform's table of pending timeouts with the next timer id it will hand out.
\<close>

record supervisor =
  xvfb :: bool
  x11vnc :: bool
  stopping :: bool
  restartTimers :: "(proc_kind \<times> nat) list"
  pendingTimers :: "(nat \<times> timer_callback) list"
  nextTimer :: nat

definition supervisorInit :: supervisor where
  "supervisorInit =
     \<lparr>xvfb = False, x11vnc = False, stopping = False, restartTimers = [],
      pendingTimers = [], nextTimer = 0\<rparr>"

text \<open>What \<open>startXvfb\<close> finds at \<open>/tmp/.X<n>-lock\<close>.\<close>

datatype display_lock = NoLock | LockOfLiveProcess | StaleLock

datatype sup_effect =
    Spawn proc_kind
  | Kill proc_kind
  | RemoveLock
  | SetTimeout nat nat timer_callback
  | ClearTimeout nat

definition startXvfb :: "display_lock \<Rightarrow> supervisor \<Rightarrow> supervisor \<times> sup_effect list" where
  "startXvfb lock s =
     (if xvfb s then (s, [])
      else (case lock of
              LockOfLiveProcess \<Rightarrow> (s, [])
            | StaleLock \<Rightarrow> (s\<lparr>xvfb := True\<rparr>, [RemoveLock, Spawn Xvfb])
            | NoLock \<Rightarrow> (s\<lparr>xvfb := True\<rparr>, [Spawn Xvfb])))"

definition stopXvfb :: "supervisor \<Rightarrow> supervisor \<times> sup_effect list" where
  "stopXvfb s = (if xvfb s then (s\<lparr>xvfb := False\<rparr>, [Kill Xvfb]) else (s, []))"

definition startX11vnc :: "supervisor \<Rightarrow> supervisor \<times> sup_effect list" where
  "startX11vnc s = (if x11vnc s then (s, []) else (s\<lparr>x11vnc := True\<rparr>, [Spawn X11vnc]))"

definition stopX11vnc :: "supervisor \<Rightarrow> supervisor \<times> sup_effect list" where
  "stopX11vnc s = (if x11vnc s then (s\<lparr>x11vnc := False\<rparr>, [Kill X11vnc]) else (s, []))"

text \<open>Two steps one after the other, their effects in order.\<close>

definition andThen ::
  "(supervisor \<Rightarrow> supervisor \<times> sup_effect list) \<Rightarrow> (supervisor \<Rightarrow> supervisor \<times> sup_effect list)
     \<Rightarrow> supervisor \<Rightarrow> supervisor \<times> sup_effect list" where
  "andThen f g s = (case f s of (s1, e1) \<Rightarrow> (case g s1 of (s2, e2) \<Rightarrow> (s2, e1 @ e2)))"

text \<open>\<open>setTimeout(callback, delay)\<close>: the platform hands out the next id.\<close>

definition setTimeoutCall ::
  "nat \<Rightarrow> timer_callback \<Rightarrow> supervisor \<Rightarrow> supervisor \<times> sup_effect list" where
  "setTimeoutCall delay cb s =
     (s\<lparr>pendingTimers := pendingTimers s @ [(nextTimer s, cb)], nextTimer := Suc (nextTimer s)\<rparr>,
      [SetTimeout (nextTimer s) delay cb])"

definition scheduleRestart :: "proc_kind \<Rightarrow> supervisor \<Rightarrow> supervisor \<times> sup_effect list" where
  "scheduleRestart kind s =
     (if stopping s then (s, [])
      else if map_of (restartTimers s) kind \<noteq> None then (s, [])
      else (case setTimeoutCall 5000 (RestartCallback kind) s of
              (s1, e1) \<Rightarrow> (s1\<lparr>restartTimers := restartTimers s1 @ [(kind, nextTimer s)]\<rparr>, e1)))"

text \<open>The callback of \<open>scheduleRestart\<close>, run when its timer fires.\<close>

definition restartCallback ::
  "proc_kind \<Rightarrow> display_lock \<Rightarrow> supervisor \<Rightarrow> supervisor \<times> sup_effect list" where
  "restartCallback kind lock s =
     (let s1 = s\<lparr>restartTimers := filter (\<lambda>p. fst p \<noteq> kind) (restartTimers s)\<rparr> in
      if stopping s1 then (s1, [])
      else (case kind of
              Xvfb \<Rightarrow> andThen (startXvfb lock) (setTimeoutCall 2000 FollowUpCallback) s1
            | X11vnc \<Rightarrow> startX11vnc s1))"

text \<open>The inner callback: \<open>if (!this.stopping) { this.stopX11vnc(); this.startX11vnc(); }\<close>\<close>

definition followUpCallback :: "supervisor \<Rightarrow> supervisor \<times> sup_effect list" where
  "followUpCallback s = (if \<not> stopping s then andThen stopX11vnc startX11vnc s else (s, []))"

text \<open>
  \<open>stop()\<close>: the flag, \<open>clearTimeout\<close> on every timer of \<open>restartTimers\<close> (the platform
  drops them from its table), \<open>restartTimers.clear()\<close>, then the two kills.
\<close>

definition clearRestartTimers :: "supervisor \<Rightarrow> supervisor \<times> sup_effect list" where
  "clearRestartTimers s =
     (s\<lparr>pendingTimers :=
           filter (\<lambda>t. fst t \<notin> set (map snd (restartTimers s))) (pendingTimers s),
         restartTimers := []\<rparr>,
      map (\<lambda>p. ClearTimeout (snd p)) (restartTimers s))"

definition stopCall :: "supervisor \<Rightarrow> supervisor \<times> sup_effect list" where
  "stopCall s = andThen clearRestartTimers (andThen stopX11vnc stopXvfb) (s\<lparr>stopping := True\<rparr>)"

text \<open>
  The rest of \<open>start()\<close> once \<open>waitForDisplay\<close> has returned: \<open>startX11vnc()\<close>, which
  always answers true.
\<close>

definition startAfterWait :: "supervisor \<Rightarrow> supervisor \<times> sup_effect list" where
  "startAfterWait s = startX11vnc s"

text \<open>
  One turn of the loop of \<open>waitForDisplay\<close>, from its test to the next \<open>await\<close>:
  \<open>withinDeadline\<close> is what \<open>Date.now() - startMs < maxWaitMs\<close> answers and \<open>lockExists\<close>
  what \<open>existsSync(lockFile)\<close> answers. Within the deadline the turn ends in a
  \<open>setTimeout\<close> of 200 ms (lock seen) or 100 ms (not yet); past the deadline the loop is
  left and \<open>start()\<close> goes on. Nothing here looks at \<open>stopping\<close>.
\<close>

definition waitForDisplayTurn :: "bool \<Rightarrow> bool \<Rightarrow> supervisor \<Rightarrow> supervisor \<times> sup_effect list" where
  "waitForDisplayTurn withinDeadline lockExists s =
     (if withinDeadline
      then (if lockExists then setTimeoutCall 200 WaitGraceCallback s
            else setTimeoutCall 100 WaitPollCallback s)
      else startAfterWait s)"

text \<open>
  The events of the supervisor's life. \<open>start()\<close> is asynchronous: \<open>StartCalled\<close> runs it
  up to the first \<open>await\<close> inside \<open>waitForDisplay\<close>, with what \<open>checkBinaries\<close> answers,
  what \<open>startXvfb\<close> finds at the lock file and whether \<open>waitForDisplay\<close> then sees the lock
  file; the timers it sets resume it. \<open>ChildError\<close> and \<open>ChildExit\<close> are the listeners on
  a child of the kind. \<open>TimerFired\<close> is the platform firing the timer of that id, if it
  is pending, with the state of the lock file then and, for a resumption of
  \<open>waitForDisplay\<close>, whether its deadline is still ahead.
\<close>

datatype sup_event =
    StartCalled bool display_lock bool
  | StopCalled
  | ChildError proc_kind
  | ChildExit proc_kind
  | TimerFired nat display_lock bool

definition childGone :: "proc_kind \<Rightarrow> supervisor \<Rightarrow> supervisor" where
  "childGone kind s = (case kind of Xvfb \<Rightarrow> s\<lparr>xvfb := False\<rparr> | X11vnc \<Rightarrow> s\<lparr>x11vnc := False\<rparr>)"

fun supStep :: "supervisor \<Rightarrow> sup_event \<Rightarrow> supervisor \<times> sup_effect list" where
  "supStep s (StartCalled binariesFound lock lockExists) =
     (if \<not> binariesFound then (s\<lparr>stopping := False\<rparr>, [])
      else andThen (startXvfb lock) (waitForDisplayTurn True lockExists)
             (s\<lparr>stopping := False\<rparr>))"
| "supStep s StopCalled = stopCall s"
| "supStep s (ChildError kind) = scheduleRestart kind s"
| "supStep s (ChildExit kind) =
     (if \<not> stopping s then scheduleRestart kind (childGone kind s) else (childGone kind s, []))"
| "supStep s (TimerFired tid lock withinDeadline) =
     (case map_of (pendingTimers s) tid of
        None \<Rightarrow> (s, [])
      | Some cb \<Rightarrow>
          (let s1 = s\<lparr>pendingTimers := filter (\<lambda>t. fst t \<noteq> tid) (pendingTimers s)\<rparr> in
           case cb of
             RestartCallback kind \<Rightarrow> restartCallback kind lock s1
           | FollowUpCallback \<Rightarrow> followUpCallback s1
           | WaitPollCallback \<Rightarrow> waitForDisplayTurn withinDeadline (lock \<noteq> NoLock) s1
           | WaitGraceCallback \<Rightarrow> startAfterWait s1))"

fun supRun :: "supervisor \<Rightarrow> sup_event list \<Rightarrow> supervisor \<times> sup_effect list" where
  "supRun s [] = (s, [])"
| "supRun s (e # es) =
     (case supStep s e of
        (s1, out1) \<Rightarrow> (case supRun s1 es of (s2, out2) \<Rightarrow> (s2, out1 @ out2)))"

text \<open>The state after a history of events, from the freshly constructed supervisor.\<close>

definition supAfter :: "sup_event list \<Rightarrow> supervisor" where
  "supAfter es = fst (supRun supervisorInit es)"

subsection \<open>Observations of the supervisor, its invariant\<close>

text \<open>
  A pending timer whose callback, when it runs, restarts the kind: the 5 s restart of the
  kind, and for x11vnc also the 2 s follow-up. The resumptions of \<open>start()\<close> start, they
  do not restart.
\<close>

fun restartsKind :: "proc_kind \<Rightarrow> timer_callback \<Rightarrow> bool" where
  "restartsKind kind (RestartCallback k) = (k = kind)"
| "restartsKind kind FollowUpCallback = (kind = X11vnc)"
| "restartsKind kind WaitPollCallback = False"
| "restartsKind kind WaitGraceCallback = False"

text \<open>A callback that restarts some kind.\<close>

fun isRestartCallback :: "timer_callback \<Rightarrow> bool" where
  "isRestartCallback (RestartCallback k) = True"
| "isRestartCallback FollowUpCallback = True"
| "isRestartCallback WaitPollCallback = False"
| "isRestartCallback WaitGraceCallback = False"

definition pendingRestartTimers :: "proc_kind \<Rightarrow> supervisor \<Rightarrow> (nat \<times> timer_callback) list" where
  "pendingRestartTimers kind s = filter (\<lambda>t. restartsKind kind (snd t)) (pendingTimers s)"

text \<open>The pending timers made by \<open>scheduleRestart\<close> for the kind.\<close>

definition pendingScheduled :: "proc_kind \<Rightarrow> supervisor \<Rightarrow> (nat \<times> timer_callback) list" where
  "pendingScheduled kind s = filter (\<lambda>t. snd t = RestartCallback kind) (pendingTimers s)"

text \<open>A restart is scheduled: \<open>setTimeout\<close> is called with a callback that restarts a kind.\<close>

fun schedulesRestart :: "sup_effect \<Rightarrow> bool" where
  "schedulesRestart (SetTimeout tid delay cb) = isRestartCallback cb"
| "schedulesRestart e = False"

fun isStart :: "sup_event \<Rightarrow> bool" where
  "isStart (StartCalled b l x) = True"
| "isStart e = False"

text \<open>The event fires a pending timer whose callback restarts a kind.\<close>

fun firesRestartTimer :: "supervisor \<Rightarrow> sup_event \<Rightarrow> bool" where
  "firesRestartTimer s (TimerFired tid l w) =
     (case map_of (pendingTimers s) tid of None \<Rightarrow> False | Some cb \<Rightarrow> isRestartCallback cb)"
| "firesRestartTimer s e = False"

text \<open>
  The invariant of the supervisor: timer ids are handed out once; the pending timers
  made by \<open>scheduleRestart\<close> are exactly the entries of \<open>restartTimers\<close>; \<open>restartTimers\<close>
  holds a kind once; and it is empty while stopping.
\<close>

definition sup_inv :: "supervisor \<Rightarrow> bool" where
  "sup_inv s =
     (distinct (map fst (pendingTimers s))
      \<and> (\<forall>t \<in> set (pendingTimers s). fst t < nextTimer s)
      \<and> (\<forall>kind tid. (tid, RestartCallback kind) \<in> set (pendingTimers s)
                       \<longleftrightarrow> (kind, tid) \<in> set (restartTimers s))
      \<and> distinct (map fst (restartTimers s))
      \<and> (stopping s \<longrightarrow> restartTimers s = []))"

text \<open>
  A history: the supervisor starts (Xvfb is spawned, the display lock shows up at the
  first poll, x11vnc is spawned after the grace), Xvfb exits, x11vnc exits, and the
  restart timer of Xvfb (timer 2) fires.
\<close>

definition crashHistory :: "sup_event list" where
  "crashHistory =
     [StartCalled True NoLock False, TimerFired 0 LockOfLiveProcess True,
      TimerFired 1 LockOfLiveProcess True, ChildExit Xvfb, ChildExit X11vnc,
      TimerFired 2 NoLock True]"

text \<open>A history in which \<open>stop()\<close> is called while \<open>start()\<close> waits for the display.\<close>

definition stopDuringStart :: "sup_event list" where
  "stopDuringStart = [StartCalled True NoLock False]"

chapter \<open>Properties of the model\<close>

section \<open>The failure table: eviction and capacity (claim C5)\<close>

lemma map_delete_subset: "set (map_delete k m) \<subseteq> set m"
  by (auto simp: map_delete_def)

lemma length_map_delete: "length (map_delete k m) \<le> length m"
  by (simp add: map_delete_def)

lemma distinct_map_delete: "distinct (map fst m) \<Longrightarrow> distinct (map fst (map_delete k m))"
  by (simp add: map_delete_def distinct_map_filter)

lemma map_has_delete: "\<not> map_has k (map_delete k m)"
  by (auto simp: map_has_def map_delete_def)

lemma map_delete_absent: "\<not> map_has k m \<Longrightarrow> map_delete k m = m"
  by (induction m) (auto simp: map_has_def map_delete_def)

lemma pruneExpired_filter_gen:
  "pruneExpired nowMs xs m =
     filter (\<lambda>p. \<not> (\<exists>e. (fst p, e) \<in> set xs \<and> windowElapsed nowMs e)) m"
proof (induction xs arbitrary: m)
  case Nil
  then show ?case by simp
next
  case (Cons x xs)
  obtain key entry where x: "x = (key, entry)" by (cases x)
  show ?case
    unfolding x pruneExpired.simps Cons.IH
    by (auto simp: map_delete_def intro!: filter_cong)
qed

lemma pruneExpired_filter:
  assumes "distinct (map fst m)"
  shows "pruneExpired nowMs m m = filter (\<lambda>p. \<not> windowElapsed nowMs (snd p)) m"
proof -
  have "\<And>p. p \<in> set m \<Longrightarrow>
      (\<exists>e. (fst p, e) \<in> set m \<and> windowElapsed nowMs e) = windowElapsed nowMs (snd p)"
  proof -
    fix p assume p: "p \<in> set m"
    have "\<And>e. (fst p, e) \<in> set m \<Longrightarrow> e = snd p"
      using assms p by (metis eq_key_imp_eq_value prod.collapse)
    then show "(\<exists>e. (fst p, e) \<in> set m \<and> windowElapsed nowMs e) = windowElapsed nowMs (snd p)"
      using p by (metis prod.collapse)
  qed
  then show ?thesis
    unfolding pruneExpired_filter_gen by (auto intro!: filter_cong)
qed

lemma dropOldest_filter_gen:
  "dropOldest n keys m = filter (\<lambda>p. fst p \<notin> set (take n keys)) m"
proof (induction n keys m rule: dropOldest.induct)
  case (1 toRemove m)
  then show ?case by simp
next
  case (2 toRemove key keys m)
  show ?case
  proof (cases toRemove)
    case 0
    then show ?thesis by simp
  next
    case (Suc k)
    then show ?thesis
      using 2 by (auto simp: map_delete_def intro!: filter_cong)
  qed
qed

lemma filter_take_keys_drop:
  "distinct (map fst m) \<Longrightarrow> filter (\<lambda>p. fst p \<notin> set (take n (map fst m))) m = drop n m"
proof (induction m arbitrary: n)
  case Nil
  then show ?case by simp
next
  case (Cons x m)
  show ?case
  proof (cases n)
    case 0
    then show ?thesis by simp
  next
    case (Suc k)
    have notin: "fst x \<notin> fst ` set m" using Cons.prems by simp
    have "filter (\<lambda>p. fst p \<notin> set (take n (map fst (x # m)))) (x # m)
        = filter (\<lambda>p. fst p \<noteq> fst x \<and> fst p \<notin> set (take k (map fst m))) m"
      using Suc by simp
    also have "\<dots> = filter (\<lambda>p. fst p \<notin> set (take k (map fst m))) m"
    proof (intro filter_cong refl)
      fix p assume "p \<in> set m"
      then have "fst p \<noteq> fst x" using notin by (metis imageI)
      then show "(fst p \<noteq> fst x \<and> fst p \<notin> set (take k (map fst m))) =
                 (fst p \<notin> set (take k (map fst m)))" by simp
    qed
    also have "\<dots> = drop k m" using Cons.IH Cons.prems by simp
    finally show ?thesis using Suc by simp
  qed
qed

lemma dropOldest_drop:
  "distinct (map fst m) \<Longrightarrow> dropOldest n (map fst m) m = drop n m"
  by (simp add: dropOldest_filter_gen filter_take_keys_drop)

lemma evictForInsert_full:
  assumes "distinct (map fst m)" "\<not> map_has k m" "length m \<ge> HOOK_AUTH_FAILURE_TRACK_MAX"
  shows "evictForInsert k nowMs m = keepAfterEviction nowMs m"
proof -
  let ?live = "filter (\<lambda>p. \<not> windowElapsed nowMs (snd p)) m"
  have d: "distinct (map fst ?live)" using assms(1) by (simp add: distinct_map_filter)
  show ?thesis
    using assms(2,3) dropOldest_drop[OF d]
    by (simp add: evictForInsert_def keepAfterEviction_def pruneExpired_filter[OF assms(1)] Let_def)
qed

lemma evictForInsert_other:
  "map_has k m \<or> length m < HOOK_AUTH_FAILURE_TRACK_MAX \<Longrightarrow> evictForInsert k nowMs m = m"
  by (auto simp: evictForInsert_def)

lemma keepAfterEviction_subset: "set (keepAfterEviction nowMs m) \<subseteq> set m"
  by (auto simp: keepAfterEviction_def Let_def dest: in_set_dropD)

lemma keepAfterEviction_distinct:
  "distinct (map fst m) \<Longrightarrow> distinct (map fst (keepAfterEviction nowMs m))"
  by (simp add: keepAfterEviction_def Let_def distinct_map_filter drop_map[symmetric] distinct_drop)

lemma keepAfterEviction_length:
  assumes "length m \<le> HOOK_AUTH_FAILURE_TRACK_MAX"
  shows "length (keepAfterEviction nowMs m) < HOOK_AUTH_FAILURE_TRACK_MAX"
proof -
  let ?live = "filter (\<lambda>p. \<not> windowElapsed nowMs (snd p)) m"
  have le: "length ?live \<le> HOOK_AUTH_FAILURE_TRACK_MAX"
    using assms length_filter_le[of _ m] by (meson le_trans)
  show ?thesis
  proof (cases "length ?live \<ge> HOOK_AUTH_FAILURE_TRACK_MAX")
    case True
    then have "length ?live = HOOK_AUTH_FAILURE_TRACK_MAX" using le by simp
    then show ?thesis
      by (simp add: keepAfterEviction_def Let_def HOOK_AUTH_FAILURE_TRACK_MAX_def)
  next
    case False
    then show ?thesis by (simp add: keepAfterEviction_def Let_def)
  qed
qed

lemma map_get_None_iff: "map_get k m = None \<longleftrightarrow> \<not> map_has k m"
  by (simp add: map_get_def map_has_def map_of_eq_None_iff)

lemma map_set_absent: "\<not> map_has k m \<Longrightarrow> map_set k v m = m @ [(k, v)]"
  by (simp add: map_set_def)

lemma record_table:
  "snd (recordHookAuthFailure k nowMs m) =
     map_delete k (evictForInsert k nowMs m)
       @ [(k, nextFailure nowMs (map_get k (evictForInsert k nowMs m)))]"
proof -
  let ?m1 = "evictForInsert k nowMs m"
  have "(if map_has k ?m1 then map_delete k ?m1 else ?m1) = map_delete k ?m1"
    by (simp add: map_delete_absent)
  then show ?thesis
    by (simp add: recordHookAuthFailure_def Let_def map_set_absent map_has_delete)
qed

lemma record_table_present:
  assumes "map_has k m"
  shows "snd (recordHookAuthFailure k nowMs m) =
           map_delete k m @ [(k, nextFailure nowMs (map_get k m))]"
  using assms by (simp add: record_table evictForInsert_other)

lemma record_table_absent_room:
  assumes "\<not> map_has k m" "length m < HOOK_AUTH_FAILURE_TRACK_MAX"
  shows "snd (recordHookAuthFailure k nowMs m) =
           m @ [(k, \<lparr>count = 1, windowStartedAtMs = nowMs\<rparr>)]"
proof -
  have "map_get k m = None" using assms(1) by (simp add: map_get_None_iff)
  then show ?thesis
    using assms by (simp add: record_table evictForInsert_other map_delete_absent nextFailure_def)
qed

lemma keepAfterEviction_has: "map_has k (keepAfterEviction nowMs m) \<Longrightarrow> map_has k m"
  using keepAfterEviction_subset[of nowMs m] by (auto simp: map_has_def)

lemma record_table_absent_full:
  assumes "distinct (map fst m)" "\<not> map_has k m" "length m \<ge> HOOK_AUTH_FAILURE_TRACK_MAX"
  shows "snd (recordHookAuthFailure k nowMs m) =
           keepAfterEviction nowMs m @ [(k, \<lparr>count = 1, windowStartedAtMs = nowMs\<rparr>)]"
proof -
  have e: "evictForInsert k nowMs m = keepAfterEviction nowMs m"
    using assms by (rule evictForInsert_full)
  have nh: "\<not> map_has k (keepAfterEviction nowMs m)"
    using assms(2) keepAfterEviction_has by blast
  then have "map_get k (keepAfterEviction nowMs m) = None" by (simp add: map_get_None_iff)
  then show ?thesis
    using nh by (simp add: record_table e map_delete_absent nextFailure_def)
qed

lemma length_delete_present: "map_has k m \<Longrightarrow> length (map_delete k m) < length m"
  by (induction m) (auto simp: map_has_def map_delete_def intro: le_imp_less_Suc)

lemma distinct_snoc_key:
  "distinct (map fst m) \<Longrightarrow> \<not> map_has k m \<Longrightarrow> distinct (map fst (m @ [(k, v)]))"
  by (auto simp: map_has_def)

lemma record_table_ok:
  assumes "table_ok m"
  shows "table_ok (snd (recordHookAuthFailure k nowMs m))"
proof -
  have d: "distinct (map fst m)" and l: "length m \<le> HOOK_AUTH_FAILURE_TRACK_MAX"
    using assms by (simp_all add: table_ok_def)
  consider (present) "map_has k m"
    | (room) "\<not> map_has k m" "length m < HOOK_AUTH_FAILURE_TRACK_MAX"
    | (full) "\<not> map_has k m" "length m \<ge> HOOK_AUTH_FAILURE_TRACK_MAX"
    by linarith
  then show ?thesis
  proof cases
    case present
    have "length (map_delete k m) < length m" using present by (rule length_delete_present)
    moreover have "distinct (map fst (map_delete k m @ [(k, nextFailure nowMs (map_get k m))]))"
      by (rule distinct_snoc_key[OF distinct_map_delete[OF d] map_has_delete])
    ultimately show ?thesis
      using l unfolding table_ok_def record_table_present[OF present] by simp
  next
    case room
    have "distinct (map fst (m @ [(k, \<lparr>count = 1, windowStartedAtMs = nowMs\<rparr>)]))"
      by (rule distinct_snoc_key[OF d room(1)])
    then show ?thesis
      using room(2) unfolding table_ok_def record_table_absent_room[OF room] by simp
  next
    case full
    have nh: "\<not> map_has k (keepAfterEviction nowMs m)"
      using full(1) keepAfterEviction_has by blast
    have "distinct (map fst (keepAfterEviction nowMs m
                              @ [(k, \<lparr>count = 1, windowStartedAtMs = nowMs\<rparr>)]))"
      by (rule distinct_snoc_key[OF keepAfterEviction_distinct[OF d] nh])
    moreover have "length (keepAfterEviction nowMs m) < HOOK_AUTH_FAILURE_TRACK_MAX"
      using l by (rule keepAfterEviction_length)
    ultimately show ?thesis
      unfolding table_ok_def record_table_absent_full[OF d full] by simp
  qed
qed

lemma clear_table_ok: "table_ok m \<Longrightarrow> table_ok (clearHookAuthFailure k m)"
  using length_map_delete[of k m]
  by (simp add: table_ok_def clearHookAuthFailure_def distinct_map_delete)

lemma applyTableOp_ok: "table_ok m \<Longrightarrow> table_ok (applyTableOp m op)"
  by (cases op) (simp_all add: record_table_ok clear_table_ok)

lemma foldl_table_ok: "table_ok m \<Longrightarrow> table_ok (foldl applyTableOp m ops)"
  by (induction ops arbitrary: m) (simp_all add: applyTableOp_ok)

lemma runTableOps_ok: "table_ok (runTableOps ops)"
  unfolding runTableOps_def by (rule foldl_table_ok) (simp add: table_ok_def)

text \<open>
  Claim C5. After every sequence of \<open>recordHookAuthFailure\<close> and
  \<open>clearHookAuthFailure\<close> calls on the initially empty table, the table holds at most
  \<open>HOOK_AUTH_FAILURE_TRACK_MAX = 2048\<close> entries. Recording a failure for a key that is
  absent while the table is at capacity first prunes every entry whose 60 s window has
  elapsed and then, if the table is still at capacity, drops the oldest half in insertion
  order, before the new entry is appended; below capacity the new entry is simply
  appended. Recording a failure for a key that is present removes the entry and appends
  its successor, so the key becomes the most recent one.
\<close>

theorem hook_failure_table_capacity_and_eviction:
  fixes ops :: "table_op list" and k :: string and nowMs :: int
  shows
  "length (runTableOps ops) \<le> HOOK_AUTH_FAILURE_TRACK_MAX
   \<and> HOOK_AUTH_FAILURE_TRACK_MAX = 2048
   \<and> (\<not> map_has k (runTableOps ops) \<and> length (runTableOps ops) \<ge> HOOK_AUTH_FAILURE_TRACK_MAX
        \<longrightarrow> runTableOps (ops @ [RecordFailure k nowMs]) =
             keepAfterEviction nowMs (runTableOps ops)
               @ [(k, \<lparr>count = 1, windowStartedAtMs = nowMs\<rparr>)])
   \<and> (\<not> map_has k (runTableOps ops) \<and> length (runTableOps ops) < HOOK_AUTH_FAILURE_TRACK_MAX
        \<longrightarrow> runTableOps (ops @ [RecordFailure k nowMs]) =
             runTableOps ops @ [(k, \<lparr>count = 1, windowStartedAtMs = nowMs\<rparr>)])
   \<and> (map_has k (runTableOps ops)
        \<longrightarrow> runTableOps (ops @ [RecordFailure k nowMs]) =
             map_delete k (runTableOps ops)
               @ [(k, nextFailure nowMs (map_get k (runTableOps ops)))])"
proof -
  let ?m = "runTableOps ops"
  have ok: "table_ok ?m" by (rule runTableOps_ok)
  have step: "runTableOps (ops @ [RecordFailure k nowMs]) = snd (recordHookAuthFailure k nowMs ?m)"
    by (simp add: runTableOps_def)
  have d: "distinct (map fst ?m)" using ok by (simp add: table_ok_def)
  have c1: "length ?m \<le> HOOK_AUTH_FAILURE_TRACK_MAX" using ok by (simp add: table_ok_def)
  have c2: "HOOK_AUTH_FAILURE_TRACK_MAX = 2048" by (simp add: HOOK_AUTH_FAILURE_TRACK_MAX_def)
  have c3: "\<not> map_has k ?m \<and> length ?m \<ge> HOOK_AUTH_FAILURE_TRACK_MAX
        \<longrightarrow> runTableOps (ops @ [RecordFailure k nowMs]) =
             keepAfterEviction nowMs ?m @ [(k, \<lparr>count = 1, windowStartedAtMs = nowMs\<rparr>)]"
    unfolding step using record_table_absent_full[OF d] by blast
  have c4: "\<not> map_has k ?m \<and> length ?m < HOOK_AUTH_FAILURE_TRACK_MAX
        \<longrightarrow> runTableOps (ops @ [RecordFailure k nowMs]) =
             ?m @ [(k, \<lparr>count = 1, windowStartedAtMs = nowMs\<rparr>)]"
    unfolding step using record_table_absent_room by blast
  have c5: "map_has k ?m
        \<longrightarrow> runTableOps (ops @ [RecordFailure k nowMs]) =
             map_delete k ?m @ [(k, nextFailure nowMs (map_get k ?m))]"
    unfolding step using record_table_present by blast
  show ?thesis using c1 c2 c3 c4 c5 by blast
qed

lemma fillKey_inj: "fillKey i = fillKey j \<longleftrightarrow> i = j"
  unfolding fillKey_def by (metis length_replicate nat.inject)

lemma fillTable_has: "map_has k (fillTable n) \<longleftrightarrow> (\<exists>i<n. k = fillKey i)"
  by (auto simp: map_has_def fillTable_def image_iff)

lemma run_fill: "n \<le> HOOK_AUTH_FAILURE_TRACK_MAX \<Longrightarrow> runTableOps (fillOps n) = fillTable n"
proof (induction n)
  case 0
  then show ?case by (simp add: runTableOps_def fillOps_def fillTable_def)
next
  case (Suc n)
  have prev: "runTableOps (fillOps n) = fillTable n" using Suc by simp
  have nh: "\<not> map_has (fillKey n) (fillTable n)"
    by (simp add: fillTable_has fillKey_inj)
  have room: "length (fillTable n) < HOOK_AUTH_FAILURE_TRACK_MAX"
    using Suc.prems by (simp add: fillTable_def)
  have "runTableOps (fillOps (Suc n)) = snd (recordHookAuthFailure (fillKey n) 0 (fillTable n))"
    using prev by (simp add: runTableOps_def fillOps_def)
  also have "\<dots> = fillTable n @ [(fillKey n, \<lparr>count = 1, windowStartedAtMs = 0\<rparr>)]"
    using nh room by (rule record_table_absent_room)
  also have "\<dots> = fillTable (Suc n)" by (simp add: fillTable_def)
  finally show ?case .
qed

lemma fillTable_live:
  "nowMs < 60000 \<Longrightarrow> filter (\<lambda>p. \<not> windowElapsed nowMs (snd p)) (fillTable n) = fillTable n"
  by (auto simp: fillTable_def windowElapsed_def HOOK_AUTH_FAILURE_WINDOW_MS_def
      intro!: filter_True)

lemma fillTable_expired:
  "60000 \<le> nowMs \<Longrightarrow> filter (\<lambda>p. \<not> windowElapsed nowMs (snd p)) (fillTable n) = []"
  by (auto simp: fillTable_def windowElapsed_def HOOK_AUTH_FAILURE_WINDOW_MS_def
      filter_empty_conv)

lemma fillTable_new: "\<not> map_has ''new'' (fillTable n)"
  by (auto simp: fillTable_has fillKey_def)

text \<open>
  Instances of C5. 2048 clients fail once each at time 0 and fill the table. A new
  client failing at 1000 ms finds no entry expired: the oldest 1024 entries are dropped
  and 1025 remain. A new client failing at 60000 ms finds every entry expired: all are
  pruned. A second failure of \<open>a\<close> moves \<open>a\<close> behind \<open>b\<close>; a first failure of \<open>b\<close> below
  capacity appends \<open>b\<close>.
\<close>

theorem hook_failure_table_capacity_and_eviction_witness:
  "length (runTableOps (fillOps 2048)) = 2048
   \<and> runTableOps (fillOps 2048 @ [RecordFailure ''new'' 1000]) =
       drop 1024 (runTableOps (fillOps 2048)) @ [(''new'', \<lparr>count = 1, windowStartedAtMs = 1000\<rparr>)]
   \<and> length (runTableOps (fillOps 2048 @ [RecordFailure ''new'' 1000])) = 1025
   \<and> runTableOps (fillOps 2048 @ [RecordFailure ''new'' 60000]) =
       [(''new'', \<lparr>count = 1, windowStartedAtMs = 60000\<rparr>)]
   \<and> runTableOps ([RecordFailure ''a'' 0, RecordFailure ''b'' 1] @ [RecordFailure ''a'' 5]) =
       [(''b'', \<lparr>count = 1, windowStartedAtMs = 1\<rparr>), (''a'', \<lparr>count = 2, windowStartedAtMs = 0\<rparr>)]
   \<and> runTableOps ([RecordFailure ''a'' 0] @ [RecordFailure ''b'' 1]) =
       [(''a'', \<lparr>count = 1, windowStartedAtMs = 0\<rparr>), (''b'', \<lparr>count = 1, windowStartedAtMs = 1\<rparr>)]"
proof -
  have full: "runTableOps (fillOps 2048) = fillTable 2048"
    by (rule run_fill) (simp add: HOOK_AUTH_FAILURE_TRACK_MAX_def)
  have len: "length (fillTable 2048) = 2048" by (simp add: fillTable_def)
  have keep1: "keepAfterEviction 1000 (fillTable 2048) = drop 1024 (fillTable 2048)"
    by (simp add: keepAfterEviction_def fillTable_live len HOOK_AUTH_FAILURE_TRACK_MAX_def)
  have keep2: "keepAfterEviction 60000 (fillTable 2048) = []"
    by (simp add: keepAfterEviction_def fillTable_expired HOOK_AUTH_FAILURE_TRACK_MAX_def)
  have ab: "runTableOps [RecordFailure ''a'' 0, RecordFailure ''b'' 1] =
              [(''a'', \<lparr>count = 1, windowStartedAtMs = 0\<rparr>), (''b'', \<lparr>count = 1, windowStartedAtMs = 1\<rparr>)]"
    and a: "runTableOps [RecordFailure ''a'' 0] = [(''a'', \<lparr>count = 1, windowStartedAtMs = 0\<rparr>)]"
    by (simp_all add: runTableOps_def recordHookAuthFailure_def evictForInsert_def map_has_def
          map_get_def map_set_def map_delete_def nextFailure_def windowElapsed_def
          HOOK_AUTH_FAILURE_TRACK_MAX_def HOOK_AUTH_FAILURE_LIMIT_def)
  have c1: "runTableOps (fillOps 2048 @ [RecordFailure ''new'' 1000]) =
       drop 1024 (fillTable 2048) @ [(''new'', \<lparr>count = 1, windowStartedAtMs = 1000\<rparr>)]"
    using hook_failure_table_capacity_and_eviction[of "fillOps 2048" "''new''" 1000]
    by (simp add: full fillTable_new len keep1 HOOK_AUTH_FAILURE_TRACK_MAX_def)
  have c2: "runTableOps (fillOps 2048 @ [RecordFailure ''new'' 60000]) =
       [(''new'', \<lparr>count = 1, windowStartedAtMs = 60000\<rparr>)]"
    using hook_failure_table_capacity_and_eviction[of "fillOps 2048" "''new''" 60000]
    by (simp add: full fillTable_new len keep2 HOOK_AUTH_FAILURE_TRACK_MAX_def)
  have c3: "runTableOps ([RecordFailure ''a'' 0, RecordFailure ''b'' 1] @ [RecordFailure ''a'' 5]) =
       [(''b'', \<lparr>count = 1, windowStartedAtMs = 1\<rparr>), (''a'', \<lparr>count = 2, windowStartedAtMs = 0\<rparr>)]"
    using hook_failure_table_capacity_and_eviction
            [of "[RecordFailure ''a'' 0, RecordFailure ''b'' 1]" "''a''" 5]
    by (simp add: ab map_has_def map_delete_def map_get_def nextFailure_def windowElapsed_def
          HOOK_AUTH_FAILURE_WINDOW_MS_def)
  have c4: "runTableOps ([RecordFailure ''a'' 0] @ [RecordFailure ''b'' 1]) =
       [(''a'', \<lparr>count = 1, windowStartedAtMs = 0\<rparr>), (''b'', \<lparr>count = 1, windowStartedAtMs = 1\<rparr>)]"
    using hook_failure_table_capacity_and_eviction[of "[RecordFailure ''a'' 0]" "''b''" 1]
    by (simp add: a map_has_def HOOK_AUTH_FAILURE_TRACK_MAX_def)
  show ?thesis
    using c1 c2 c3 c4 by (simp add: full len)
qed

section \<open>Throttling after repeated failures (claim C3)\<close>

lemma evictForInsert_subset: "set (evictForInsert k nowMs m) \<subseteq> set m"
  by (auto simp: evictForInsert_def Let_def pruneExpired_filter_gen dropOldest_filter_gen)

lemma map_get_evict: "map_get k (evictForInsert k nowMs m) = map_get k m"
proof (cases "map_has k m")
  case True
  then show ?thesis by (simp add: evictForInsert_other)
next
  case False
  then have "\<not> map_has k (evictForInsert k nowMs m)"
    using evictForInsert_subset[of k nowMs m] by (auto simp: map_has_def)
  then show ?thesis using False by (simp add: map_get_None_iff[symmetric])
qed

lemma record_result:
  "fst (recordHookAuthFailure k nowMs m) = throttleOf nowMs (nextFailure nowMs (map_get k m))"
  by (simp add: recordHookAuthFailure_def Let_def map_get_evict throttleOf_def)

lemma map_get_snoc_deleted: "map_get k (map_delete k m @ [(k, v)]) = Some v"
proof -
  have "map_of (map_delete k m) k = None"
    using map_has_delete[of k m] by (simp add: map_has_def map_of_eq_None_iff)
  then show ?thesis by (simp add: map_get_def map_add_def)
qed

lemma map_get_record:
  "map_get k (snd (recordHookAuthFailure k nowMs m)) = Some (nextFailure nowMs (map_get k m))"
  by (simp add: record_table map_get_snoc_deleted map_get_evict)

lemma handler_wrong_token:
  assumes "wrongTokenRequest d cfg req"
  shows "hooksRequestHandler d (Some cfg) req nowMs table =
           (ReturnedTrue,
            authFailureEffects (resolveHookClientKey req)
              (fst (recordHookAuthFailure (resolveHookClientKey req) nowMs table)),
            snd (recordHookAuthFailure (resolveHookClientKey req) nowMs table))"
  using assms
  by (auto simp: wrongTokenRequest_def isHooksPath_def hooksRequestHandler_def Let_def
           authFailureEffects_def split: prod.splits)






subsection \<open>Requests of other clients in between\<close>





























subsection \<open>A flood of other clients evicts the entry of a client\<close>



































section \<open>Dispatch and status codes (claim C4), query tokens (claim C6)\<close>

lemma discipline_single:
  "s \<noteq> 200 \<Longrightarrow> s \<noteq> 202 \<Longrightarrow> (is2xx s \<longrightarrow> s = 204) \<Longrightarrow>
     dispatchDiscipline [SendResponse \<lparr>statusCode = s, headerFields = hs, responseBody = b\<rparr>]"
  by (simp add: dispatchDiscipline_def)


lemma discipline_sendText:
  "s \<noteq> 200 \<Longrightarrow> s \<noteq> 202 \<Longrightarrow> (is2xx s \<longrightarrow> s = 204) \<Longrightarrow> dispatchDiscipline [sendText s hs b]"
  unfolding sendText_def by (rule discipline_single)












text \<open>
  Claim C6. A hooks request (hooks configured, path under the base path) whose query
  string has a \<open>token\<close> parameter is answered 400 with the fixed message, which names
  \<open>Authorization\<close> and the header \<open>X-OpenClaw-Token\<close>; nothing is dispatched and the failure
  table is left as it was. The answer does not depend on the collaborators, so it is the
  same when the presented token is the right one: the request is refused before any
  token is extracted or compared.
\<close>

theorem hook_query_token_rejected:
  assumes "isHooksPath cfg req" and "searchParamsHas ''token'' req"
  shows "hooksRequestHandler d (Some cfg) req nowMs table =
           (ReturnedTrue,
            [SendResponse \<lparr>statusCode = 400,
                           headerFields = [ContentType ''text/plain; charset=utf-8''],
                           responseBody = TextBody QUERY_TOKEN_MESSAGE\<rparr>],
            table)
       \<and> filter isDispatch (hookEffects d (Some cfg) req nowMs table) = []
       \<and> sublist ''Authorization'' QUERY_TOKEN_MESSAGE
       \<and> sublist ''X-OpenClaw-Token'' QUERY_TOKEN_MESSAGE"
proof -
  have run: "hooksRequestHandler d (Some cfg) req nowMs table =
           (ReturnedTrue,
            [SendResponse \<lparr>statusCode = 400,
                           headerFields = [ContentType ''text/plain; charset=utf-8''],
                           responseBody = TextBody QUERY_TOKEN_MESSAGE\<rparr>],
            table)"
    using assms by (auto simp: hooksRequestHandler_def isHooksPath_def sendText_def)
  have a: "sublist ''Authorization'' QUERY_TOKEN_MESSAGE"
    unfolding sublist_def QUERY_TOKEN_MESSAGE_def
    by (rule exI[of _ "''Hook token must be provided via ''"], rule exI[of _ "'': Bearer <token> or X-OpenClaw-Token header (query parameters are not allowed).''"]) simp
  have b: "sublist ''X-OpenClaw-Token'' QUERY_TOKEN_MESSAGE"
    unfolding sublist_def QUERY_TOKEN_MESSAGE_def
    by (rule exI[of _ "''Hook token must be provided via Authorization: Bearer <token> or ''"], rule exI[of _ "'' header (query parameters are not allowed).''"]) simp
  show ?thesis using run a b by (simp add: hookEffects_def)
qed

text \<open>
  An instance of C6: the request presents the right token, in the header and in the
  query string, and is answered 400.
\<close>

theorem hook_query_token_rejected_witness:
  "safeEqualSecret exampleDeps (Some ''s3cret'') (cfgToken exampleConfig)
   \<and> hooksRequestHandler exampleDeps (Some exampleConfig)
       ((exampleRequest ''/hooks/wake'' (Some ''s3cret''))\<lparr>searchParams := [(''token'', ''s3cret'')]\<rparr>)
       0 [] =
     (ReturnedTrue,
      [SendResponse \<lparr>statusCode = 400,
                     headerFields = [ContentType ''text/plain; charset=utf-8''],
                     responseBody = TextBody QUERY_TOKEN_MESSAGE\<rparr>],
      [])"
proof -
  let ?req = "(exampleRequest ''/hooks/wake'' (Some ''s3cret''))\<lparr>searchParams := [(''token'', ''s3cret'')]\<rparr>"
  have p: "isHooksPath exampleConfig ?req"
    by (simp add: isHooksPath_def exampleConfig_def exampleRequest_def)
  have q: "searchParamsHas ''token'' ?req"
    by (simp add: searchParamsHas_def)
  show ?thesis
    using hook_query_token_rejected[OF p q, of exampleDeps 0 "[]"]
    by (simp add: exampleDeps_def exampleConfig_def)
qed

section \<open>The client key of a request without a socket address (claim C10)\<close>

lemma trim_spaces: "list_all isJsSpace a \<Longrightarrow> trim a = []"
proof -
  assume "list_all isJsSpace a"
  then have d: "dropWhile isJsSpace a = []" by (metis dropWhile_eq_Nil_conv list_all_iff)
  show ?thesis unfolding trim_def d by simp
qed

lemma unknown_key: "noRemoteAddress req \<Longrightarrow> resolveHookClientKey req = ''unknown''"
  by (auto simp: noRemoteAddress_def resolveHookClientKey_def trim_spaces split: option.splits)

lemma handler_right_token:
  assumes "rightTokenRequest d cfg req"
  shows "snd (snd (hooksRequestHandler d (Some cfg) req nowMs table)) =
           clearHookAuthFailure (resolveHookClientKey req) table"
  using assms
  by (auto simp: rightTokenRequest_def isHooksPath_def hooksRequestHandler_def Let_def
           split: prod.splits)

lemma map_get_delete: "map_get k (map_delete k m) = None"
  using map_has_delete[of k m] by (simp add: map_get_None_iff)

text \<open>
  Claim C10. A hooks request whose socket has no remote address, or a white-space-only
  one, has the client key \<open>unknown\<close>. When such a request fails the token comparison, the
  failure is recorded under \<open>unknown\<close>: the entry of \<open>unknown\<close> becomes the successor of
  the entry any earlier such request left there, and the answer (401 or 429) is decided
  by that one entry. When such a request passes the comparison, the entry of \<open>unknown\<close>
  is deleted, whoever put it there.
\<close>

theorem hook_unknown_client_key_shared:
  assumes "noRemoteAddress req"
  shows "resolveHookClientKey req = ''unknown''
       \<and> (wrongTokenRequest d cfg req \<longrightarrow>
            snd (snd (hooksRequestHandler d (Some cfg) req nowMs table))
              = snd (recordHookAuthFailure ''unknown'' nowMs table)
          \<and> map_get ''unknown'' (snd (snd (hooksRequestHandler d (Some cfg) req nowMs table)))
              = Some (nextFailure nowMs (map_get ''unknown'' table))
          \<and> sentStatuses (hookEffects d (Some cfg) req nowMs table)
              = [if count (nextFailure nowMs (map_get ''unknown'' table)) \<le> HOOK_AUTH_FAILURE_LIMIT
                 then 401 else 429])
       \<and> (rightTokenRequest d cfg req \<longrightarrow>
            snd (snd (hooksRequestHandler d (Some cfg) req nowMs table))
              = map_delete ''unknown'' table
          \<and> map_get ''unknown'' (snd (snd (hooksRequestHandler d (Some cfg) req nowMs table)))
              = None)"
proof -
  have key: "resolveHookClientKey req = ''unknown''" using assms by (rule unknown_key)
  have wrong: "wrongTokenRequest d cfg req \<longrightarrow>
            snd (snd (hooksRequestHandler d (Some cfg) req nowMs table))
              = snd (recordHookAuthFailure ''unknown'' nowMs table)
          \<and> map_get ''unknown'' (snd (snd (hooksRequestHandler d (Some cfg) req nowMs table)))
              = Some (nextFailure nowMs (map_get ''unknown'' table))
          \<and> sentStatuses (hookEffects d (Some cfg) req nowMs table)
              = [if count (nextFailure nowMs (map_get ''unknown'' table)) \<le> HOOK_AUTH_FAILURE_LIMIT
                 then 401 else 429]"
  proof
    assume w: "wrongTokenRequest d cfg req"
    show "snd (snd (hooksRequestHandler d (Some cfg) req nowMs table))
              = snd (recordHookAuthFailure ''unknown'' nowMs table)
          \<and> map_get ''unknown'' (snd (snd (hooksRequestHandler d (Some cfg) req nowMs table)))
              = Some (nextFailure nowMs (map_get ''unknown'' table))
          \<and> sentStatuses (hookEffects d (Some cfg) req nowMs table)
              = [if count (nextFailure nowMs (map_get ''unknown'' table)) \<le> HOOK_AUTH_FAILURE_LIMIT
                 then 401 else 429]"
      by (simp add: hookEffects_def handler_wrong_token[OF w] key map_get_record record_result
            throttleOf_def authFailureEffects_def sendText_def Let_def)
  qed
  have right: "rightTokenRequest d cfg req \<longrightarrow>
            snd (snd (hooksRequestHandler d (Some cfg) req nowMs table))
              = map_delete ''unknown'' table
          \<and> map_get ''unknown'' (snd (snd (hooksRequestHandler d (Some cfg) req nowMs table)))
              = None"
    by (simp add: handler_right_token key clearHookAuthFailure_def map_get_delete)
  show ?thesis using key wrong right by blast
qed

text \<open>
  Instances of C10: a request without an address and one whose address is two spaces
  both have the key \<open>unknown\<close>; the failure of the second bumps the entry the first
  left, and a request without an address that presents the right token deletes it.
\<close>

theorem hook_unknown_client_key_shared_witness:
  "resolveHookClientKey
     ((exampleRequest ''/hooks/wake'' (Some ''guess''))\<lparr>socketRemoteAddress := None\<rparr>) = ''unknown''
   \<and> resolveHookClientKey
     ((exampleRequest ''/hooks/wake'' (Some ''guess''))\<lparr>socketRemoteAddress := Some ''  ''\<rparr>) = ''unknown''
   \<and> snd (snd (hooksRequestHandler exampleDeps (Some exampleConfig)
        ((exampleRequest ''/hooks/wake'' (Some ''guess''))\<lparr>socketRemoteAddress := Some ''  ''\<rparr>)
        10 [(''unknown'', \<lparr>count = 1, windowStartedAtMs = 0\<rparr>)]))
       = [(''unknown'', \<lparr>count = 2, windowStartedAtMs = 0\<rparr>)]
   \<and> snd (snd (hooksRequestHandler exampleDeps (Some exampleConfig)
        ((exampleRequest ''/hooks/wake'' (Some ''s3cret''))\<lparr>socketRemoteAddress := None\<rparr>)
        20 [(''unknown'', \<lparr>count = 2, windowStartedAtMs = 0\<rparr>)]))
       = []"
proof -
  let ?a = "(exampleRequest ''/hooks/wake'' (Some ''guess''))\<lparr>socketRemoteAddress := None\<rparr>"
  let ?b = "(exampleRequest ''/hooks/wake'' (Some ''guess''))\<lparr>socketRemoteAddress := Some ''  ''\<rparr>"
  let ?c = "(exampleRequest ''/hooks/wake'' (Some ''s3cret''))\<lparr>socketRemoteAddress := None\<rparr>"
  have na: "noRemoteAddress ?a" and nb: "noRemoteAddress ?b" and nc: "noRemoteAddress ?c"
    by (simp_all add: noRemoteAddress_def isJsSpace_def)
  have wb: "wrongTokenRequest exampleDeps exampleConfig ?b"
    by (simp add: wrongTokenRequest_def isHooksPath_def searchParamsHas_def exampleDeps_def
          exampleConfig_def exampleRequest_def)
  have rc: "rightTokenRequest exampleDeps exampleConfig ?c"
    by (simp add: rightTokenRequest_def isHooksPath_def searchParamsHas_def exampleDeps_def
          exampleConfig_def exampleRequest_def)
  have rec: "snd (recordHookAuthFailure ''unknown'' 10 [(''unknown'', \<lparr>count = 1, windowStartedAtMs = 0\<rparr>)])
               = [(''unknown'', \<lparr>count = 2, windowStartedAtMs = 0\<rparr>)]"
    by (simp add: record_table evictForInsert_def map_has_def map_delete_def map_get_def
          nextFailure_def windowElapsed_def HOOK_AUTH_FAILURE_WINDOW_MS_def)
  let ?t1 = "[(''unknown'', \<lparr>count = 1, windowStartedAtMs = 0\<rparr>)]"
  let ?t2 = "[(''unknown'', \<lparr>count = 2, windowStartedAtMs = 0\<rparr>)]"
  have ka: "resolveHookClientKey ?a = ''unknown''"
    using hook_unknown_client_key_shared[OF na, of exampleDeps exampleConfig 0 "[]"] by blast
  have kb: "resolveHookClientKey ?b = ''unknown''"
    using hook_unknown_client_key_shared[OF nb, of exampleDeps exampleConfig 0 "[]"] by blast
  have fb: "snd (snd (hooksRequestHandler exampleDeps (Some exampleConfig) ?b 10 ?t1))
              = snd (recordHookAuthFailure ''unknown'' 10 ?t1)"
    using hook_unknown_client_key_shared[OF nb, of exampleDeps exampleConfig 10 ?t1] wb by blast
  have fc: "snd (snd (hooksRequestHandler exampleDeps (Some exampleConfig) ?c 20 ?t2))
              = map_delete ''unknown'' ?t2"
    using hook_unknown_client_key_shared[OF nc, of exampleDeps exampleConfig 20 ?t2] rc by blast
  show ?thesis
    unfolding ka kb fb fc rec by (simp add: map_delete_def)
qed

section \<open>The framebuffer proxy: teardown (claim C7) and forwarding (claim C8)\<close>

lemma cleanup_eq:
  "cleanup s =
     ((if wsClosable s then (\<lambda>t. t\<lparr>wsReadyState := 2, wsOpen := False\<rparr>) else (\<lambda>t. t))
        ((if upstreamAlive s then (\<lambda>t. t\<lparr>socketDestroyed := True, upstreamSet := False\<rparr>)
          else (\<lambda>t. t)) s),
      (if upstreamAlive s then [UpstreamDestroy] else [])
        @ (if wsClosable s then [WsCloseCall] else []))"
  by (simp add: cleanup_def upstreamAlive_def wsClosable_def)

lemma cleanup_tornDown: "tornDown (fst (cleanup s))"
  by (simp add: cleanup_eq tornDown_def upstreamAlive_def wsClosable_def)

lemma cleanup_of_tornDown: "tornDown s \<Longrightarrow> cleanup s = (s, [])"
  by (simp add: cleanup_eq tornDown_def)

lemma cleanup_idempotent: "cleanup (fst (cleanup s)) = (fst (cleanup s), [])"
  by (rule cleanup_of_tornDown) (rule cleanup_tornDown)

lemma teardown_step_tornDown: "isTeardownEvent e \<Longrightarrow> tornDown (fst (proxyStep enc s e))"
  by (cases e) (simp_all add: cleanup_tornDown)

lemma tornDown_step: "tornDown s \<Longrightarrow> tornDown (fst (proxyStep enc s e)) \<and> snd (proxyStep enc s e) = []"
  by (cases e)
     (auto simp: cleanup_eq tornDown_def upstreamAlive_def wsClosable_def split: prod.splits)

lemma tornDown_run: "tornDown s \<Longrightarrow> tornDown (fst (proxyRun enc s es)) \<and> snd (proxyRun enc s es) = []"
proof (induction es arbitrary: s)
  case Nil
  then show ?case by simp
next
  case (Cons e es)
  obtain s1 out1 where st: "proxyStep enc s e = (s1, out1)" by (cases "proxyStep enc s e")
  have "tornDown s1" and "out1 = []"
    using tornDown_step[OF Cons.prems, of enc e] st by simp_all
  then show ?case using Cons.IH[of s1] st by (simp split: prod.splits)
qed

lemma proxyRun_append:
  "proxyRun enc s (es1 @ es2) =
     (case proxyRun enc s es1 of
        (s1, out1) \<Rightarrow> (case proxyRun enc s1 es2 of (s2, out2) \<Rightarrow> (s2, out1 @ out2)))"
  by (induction es1 arbitrary: s) (auto split: prod.splits)

lemma step_destroy_budget:
  "count_list (snd (proxyStep enc s e)) UpstreamDestroy + destroyBudget (fst (proxyStep enc s e))
     \<le> destroyBudget s"
  by (cases e)
     (auto simp: cleanup_eq destroyBudget_def upstreamAlive_def wsClosable_def split: prod.splits)

lemma step_close_budget:
  "count_list (snd (proxyStep enc s e)) WsCloseCall + closeBudget (fst (proxyStep enc s e))
     \<le> closeBudget s"
  by (cases e)
     (auto simp: cleanup_eq closeBudget_def upstreamAlive_def wsClosable_def split: prod.splits)

lemma run_destroy_budget:
  "count_list (snd (proxyRun enc s es)) UpstreamDestroy + destroyBudget (fst (proxyRun enc s es))
     \<le> destroyBudget s"
proof (induction es arbitrary: s)
  case Nil
  then show ?case by simp
next
  case (Cons e es)
  obtain s1 out1 where st: "proxyStep enc s e = (s1, out1)" by (cases "proxyStep enc s e")
  obtain s2 out2 where rn: "proxyRun enc s1 es = (s2, out2)" by (cases "proxyRun enc s1 es")
  have a: "count_list out1 UpstreamDestroy + destroyBudget s1 \<le> destroyBudget s"
    using step_destroy_budget[of enc s e] st by simp
  have b: "count_list out2 UpstreamDestroy + destroyBudget s2 \<le> destroyBudget s1"
    using Cons.IH[of s1] rn by simp
  show ?case using a b by (simp add: st rn)
qed

lemma run_close_budget:
  "count_list (snd (proxyRun enc s es)) WsCloseCall + closeBudget (fst (proxyRun enc s es))
     \<le> closeBudget s"
proof (induction es arbitrary: s)
  case Nil
  then show ?case by simp
next
  case (Cons e es)
  obtain s1 out1 where st: "proxyStep enc s e = (s1, out1)" by (cases "proxyStep enc s e")
  obtain s2 out2 where rn: "proxyRun enc s1 es = (s2, out2)" by (cases "proxyRun enc s1 es")
  have a: "count_list out1 WsCloseCall + closeBudget s1 \<le> closeBudget s"
    using step_close_budget[of enc s e] st by simp
  have b: "count_list out2 WsCloseCall + closeBudget s2 \<le> closeBudget s1"
    using Cons.IH[of s1] rn by simp
  show ?case using a b by (simp add: st rn)
qed

lemma teardown_effects:
  assumes "isTeardownEvent e"
  shows "snd (proxyStep enc s e) =
           (if upstreamAlive s \<and> e \<noteq> UpstreamClose then [UpstreamDestroy] else [])
             @ (if wsClosable s \<and> e \<noteq> WsClose then [WsCloseCall] else [])"
  using assms
  by (cases e) (simp_all add: cleanup_eq upstreamAlive_def wsClosable_def)

lemma run_after_teardown:
  assumes "isTeardownEvent e"
  shows "snd (proxyRun enc s (es1 @ e # es2)) = snd (proxyRun enc s (es1 @ [e]))"
proof -
  obtain s1 out1 where r1: "proxyRun enc s es1 = (s1, out1)" by (cases "proxyRun enc s es1")
  obtain s2 out2 where st: "proxyStep enc s1 e = (s2, out2)" by (cases "proxyStep enc s1 e")
  have "tornDown s2" using teardown_step_tornDown[OF assms, of enc s1] st by simp
  then have "snd (proxyRun enc s2 es2) = []" using tornDown_run by blast
  then show ?thesis
    by (auto simp add: proxyRun_append r1 st split: prod.splits)
qed

text \<open>
  Claim C7. From any state of a session: (1) a close or error event of either side
  leaves the session torn down (the socket is null or destroyed, the WebSocket is not
  open any more), and in handling it the handler calls \<open>upstream.destroy()\<close> exactly when
  the socket was still alive and calls \<open>ws.close()\<close> exactly when the WebSocket was still
  open (an upstream \<open>close\<close> event finds the socket destroyed, a WebSocket \<open>close\<close> event
  finds the WebSocket closed); (2) \<open>cleanup\<close> is idempotent: run again, it changes
  nothing and calls nothing; (3) over any sequence of events, \<open>upstream.destroy()\<close> is
  called at most once and \<open>ws.close()\<close> at most once; (4) after a close or error event,
  no later event leads to a \<open>ws.send\<close> or an \<open>upstream.write\<close>, or to any other call.
\<close>

theorem proxy_teardown_symmetric_idempotent:
  "(isTeardownEvent e \<longrightarrow>
      tornDown (fst (proxyStep enc s e))
      \<and> snd (proxyStep enc s e) =
          (if upstreamAlive s \<and> e \<noteq> UpstreamClose then [UpstreamDestroy] else [])
            @ (if wsClosable s \<and> e \<noteq> WsClose then [WsCloseCall] else []))
   \<and> cleanup (fst (cleanup s)) = (fst (cleanup s), [])
   \<and> count_list (snd (proxyRun enc s es)) UpstreamDestroy \<le> 1
   \<and> count_list (snd (proxyRun enc s es)) WsCloseCall \<le> 1
   \<and> (isTeardownEvent e \<longrightarrow>
        snd (proxyRun enc s (es1 @ e # es2)) = snd (proxyRun enc s (es1 @ [e]))
        \<and> filter isWrite (snd (proxyRun enc (fst (proxyRun enc s (es1 @ [e]))) es2)) = [])"
proof -
  have a: "isTeardownEvent e \<longrightarrow>
      tornDown (fst (proxyStep enc s e))
      \<and> snd (proxyStep enc s e) =
          (if upstreamAlive s \<and> e \<noteq> UpstreamClose then [UpstreamDestroy] else [])
            @ (if wsClosable s \<and> e \<noteq> WsClose then [WsCloseCall] else [])"
    using teardown_step_tornDown teardown_effects by blast
  have b: "cleanup (fst (cleanup s)) = (fst (cleanup s), [])" by (rule cleanup_idempotent)
  have "destroyBudget s \<le> 1" by (simp add: destroyBudget_def)
  then have c: "count_list (snd (proxyRun enc s es)) UpstreamDestroy \<le> 1"
    using run_destroy_budget[of enc s es] by linarith
  have "closeBudget s \<le> 1" by (simp add: closeBudget_def)
  then have d: "count_list (snd (proxyRun enc s es)) WsCloseCall \<le> 1"
    using run_close_budget[of enc s es] by linarith
  have e: "isTeardownEvent e \<longrightarrow>
        snd (proxyRun enc s (es1 @ e # es2)) = snd (proxyRun enc s (es1 @ [e]))
        \<and> filter isWrite (snd (proxyRun enc (fst (proxyRun enc s (es1 @ [e]))) es2)) = []"
  proof
    assume t: "isTeardownEvent e"
    obtain s1 out1 where r1: "proxyRun enc s es1 = (s1, out1)" by (cases "proxyRun enc s es1")
    have "fst (proxyRun enc s (es1 @ [e])) = fst (proxyStep enc s1 e)"
      by (simp add: proxyRun_append r1 split: prod.splits)
    then have "tornDown (fst (proxyRun enc s (es1 @ [e])))"
      using teardown_step_tornDown[OF t, of enc s1] by simp
    then have "snd (proxyRun enc (fst (proxyRun enc s (es1 @ [e]))) es2) = []"
      using tornDown_run by blast
    then show "snd (proxyRun enc s (es1 @ e # es2)) = snd (proxyRun enc s (es1 @ [e]))
        \<and> filter isWrite (snd (proxyRun enc (fst (proxyRun enc s (es1 @ [e]))) es2)) = []"
      using run_after_teardown[OF t] by simp
  qed
  show ?thesis using a b c d e by blast
qed

text \<open>
  An instance of C7: after some traffic the WebSocket reports an error; the socket is
  destroyed and the WebSocket closed, once each, and the four close and error events and
  the traffic that follow lead to no call.
\<close>

theorem proxy_teardown_symmetric_idempotent_witness:
  "isTeardownEvent (WsError :: string proxy_event)
   \<and> snd (proxyRun exampleEnc proxyInit exampleSession)
       = [UpstreamWrite [1, 2, 3], WsSendBinary [255], UpstreamDestroy, WsCloseCall]
   \<and> snd (proxyRun exampleEnc proxyInit
            ([WsMessage (SingleBuffer [1, 2, 3]) False, UpstreamData [255] False] @ [WsError]))
       = [UpstreamWrite [1, 2, 3], WsSendBinary [255], UpstreamDestroy, WsCloseCall]
   \<and> count_list (snd (proxyRun exampleEnc proxyInit exampleSession)) UpstreamDestroy = 1
   \<and> count_list (snd (proxyRun exampleEnc proxyInit exampleSession)) WsCloseCall = 1"
proof -
  have t: "isTeardownEvent (WsError :: string proxy_event)" by simp
  have split: "exampleSession =
      [WsMessage (SingleBuffer [1, 2, 3]) False, UpstreamData [255] False] @ WsError #
      [UpstreamError, UpstreamClose, WsClose, WsMessage (SingleBuffer [4]) False,
       UpstreamData [5] False, WsError]"
    by (simp add: exampleSession_def)
  have short: "snd (proxyRun exampleEnc proxyInit
            ([WsMessage (SingleBuffer [1, 2, 3]) False, UpstreamData [255] False] @ [WsError]))
       = [UpstreamWrite [1, 2, 3], WsSendBinary [255], UpstreamDestroy, WsCloseCall]"
    by (simp add: proxyInit_def cleanup_def)
  have long: "snd (proxyRun exampleEnc proxyInit exampleSession)
       = [UpstreamWrite [1, 2, 3], WsSendBinary [255], UpstreamDestroy, WsCloseCall]"
    using proxy_teardown_symmetric_idempotent
            [of WsError exampleEnc proxyInit "[]"
                "[WsMessage (SingleBuffer [1, 2, 3]) False, UpstreamData [255] False]"
                "[UpstreamError, UpstreamClose, WsClose, WsMessage (SingleBuffer [4]) False,
                  UpstreamData [5] False, WsError]"]
          t short
    unfolding split by simp
  show ?thesis using t short long by simp
qed

text \<open>
  Claim C8. While the upstream socket is alive, a WebSocket message leads to exactly one
  \<open>upstream.write\<close>, of one buffer: the bytes of a single buffer or of an \<open>ArrayBuffer\<close> as
  they are, the concatenation of an array of buffers, the encoding of the string for
  anything else (and should the write throw, \<open>cleanup\<close> follows). While the WebSocket is
  open, a chunk of upstream data leads to exactly one binary \<open>ws.send\<close> of the same
  bytes. Neither changes the session when nothing throws.
\<close>

theorem proxy_forwards_bytes_unmodified:
  "(upstreamAlive s \<longrightarrow>
      proxyStep enc s (WsMessage payload False) = (s, [UpstreamWrite (coalesce enc payload)])
      \<and> snd (proxyStep enc s (WsMessage payload True))
          = UpstreamWrite (coalesce enc payload) # snd (cleanup s))
   \<and> coalesce enc (SingleBuffer b) = b
   \<and> coalesce enc (ArrayBufferData b) = b
   \<and> coalesce enc (BufferArray bs) = concat bs
   \<and> coalesce enc (OtherData x) = enc x
   \<and> (wsOpen s \<and> wsReadyState s = 1 \<longrightarrow>
        proxyStep enc s (UpstreamData chunk False) = (s, [WsSendBinary chunk])
        \<and> snd (proxyStep enc s (UpstreamData chunk True)) = WsSendBinary chunk # snd (cleanup s))"
  by (simp add: upstreamAlive_def split: prod.splits)

text \<open>
  Instances of C8: the client sends 01 02 03, as one buffer or as two fragments, and the
  upstream receives 01 02 03; the upstream sends FF and the client receives FF.
\<close>

theorem proxy_forwards_bytes_unmodified_witness:
  "upstreamAlive proxyInit \<and> wsOpen proxyInit \<and> wsReadyState proxyInit = 1
   \<and> proxyStep exampleEnc proxyInit (WsMessage (SingleBuffer [1, 2, 3]) False)
       = (proxyInit, [UpstreamWrite [1, 2, 3]])
   \<and> proxyStep exampleEnc proxyInit (WsMessage (BufferArray [[1], [2, 3]]) False)
       = (proxyInit, [UpstreamWrite [1, 2, 3]])
   \<and> proxyStep exampleEnc proxyInit (UpstreamData [255] False)
       = (proxyInit, [WsSendBinary [255]])"
proof -
  have a: "upstreamAlive proxyInit" and o: "wsOpen proxyInit" and r: "wsReadyState proxyInit = 1"
    by (simp_all add: upstreamAlive_def proxyInit_def)
  show ?thesis
    using proxy_forwards_bytes_unmodified
            [of proxyInit exampleEnc "SingleBuffer [1, 2, 3]" "[]" "[]" "[]" "[255]"]
          proxy_forwards_bytes_unmodified
            [of proxyInit exampleEnc "BufferArray [[1], [2, 3]]" "[]" "[]" "[]" "[255]"]
          a o r
    by simp
qed

section \<open>Machine-scoped authorization without a credential (claim C2)\<close>

lemma hasAuthorized_holds: "hasAuthorizedWsClientForIp clients ip \<Longrightarrow> registryHolds clients ip"
  by (induction clients) (auto simp: registryHolds_def split: option.splits if_splits)

lemma holds_hasAuthorized:
  "ip \<noteq> [] \<Longrightarrow> registryHolds clients ip \<Longrightarrow> hasAuthorizedWsClientForIp clients ip"
  by (induction clients) (auto simp: registryHolds_def split: option.splits)

lemma machine_scoped_fallback:
  assumes "\<not> isLocalDirectRequest d req trustedProxies"
    and "\<not> bearerAccepted d req auth trustedProxies rateLimiter"
  shows "authorizeMachineScopedRequest d req auth trustedProxies clients rateLimiter =
           (let failure = (case bearerAttempt d req auth trustedProxies rateLimiter of
                             Some r \<Rightarrow> r | None \<Rightarrow> authUnauthorized)
            in case effectiveClientIp d req trustedProxies of
                 None \<Rightarrow> failure
               | Some ip \<Rightarrow>
                   if ip \<noteq> [] \<and> isPrivateOrLoopbackAddress d ip
                      \<and> hasAuthorizedWsClientForIp clients ip
                   then authGranted else failure)"
  using assms
  by (auto simp: authorizeMachineScopedRequest_def siblingFallback_def bearerAccepted_def Let_def
      split: option.splits)

lemma fallback_failure_not_ok:
  assumes "\<not> bearerAccepted d req auth trustedProxies rateLimiter"
  shows "\<not> authOk (case bearerAttempt d req auth trustedProxies rateLimiter of
                     Some r \<Rightarrow> r | None \<Rightarrow> authUnauthorized)"
  using assms by (auto simp: bearerAccepted_def authUnauthorized_def split: option.splits)

text \<open>
  Claim C2. For every request to a machine-scoped endpoint and every behaviour of the
  collaborators: if the authorizer answers ok and no bearer credential was accepted, then
  the request was a local direct one, or the effective client IP is a private or loopback
  address and the registry of authenticated clients holds a connection with that IP. And
  when the request is not local, no bearer credential was accepted, and the effective IP
  is missing or not private or loopback, the request is rejected and the registry plays no
  part: the answer is the same for every registry.
\<close>

theorem machine_scoped_ok_without_credential:
  "(authOk (authorizeMachineScopedRequest d req auth trustedProxies clients rateLimiter)
      \<and> \<not> bearerAccepted d req auth trustedProxies rateLimiter
    \<longrightarrow> isLocalDirectRequest d req trustedProxies
        \<or> (\<exists>ip. effectiveClientIp d req trustedProxies = Some ip
               \<and> isPrivateOrLoopbackAddress d ip \<and> registryHolds clients ip))
   \<and> (\<not> isLocalDirectRequest d req trustedProxies
      \<and> \<not> bearerAccepted d req auth trustedProxies rateLimiter
      \<and> (case effectiveClientIp d req trustedProxies of
            None \<Rightarrow> True | Some ip \<Rightarrow> \<not> isPrivateOrLoopbackAddress d ip)
    \<longrightarrow> \<not> authOk (authorizeMachineScopedRequest d req auth trustedProxies clients rateLimiter)
        \<and> (\<forall>clients'.
              authorizeMachineScopedRequest d req auth trustedProxies clients' rateLimiter
              = authorizeMachineScopedRequest d req auth trustedProxies clients rateLimiter))"
proof -
  have one: "authOk (authorizeMachineScopedRequest d req auth trustedProxies clients rateLimiter)
      \<and> \<not> bearerAccepted d req auth trustedProxies rateLimiter
    \<longrightarrow> isLocalDirectRequest d req trustedProxies
        \<or> (\<exists>ip. effectiveClientIp d req trustedProxies = Some ip
               \<and> isPrivateOrLoopbackAddress d ip \<and> registryHolds clients ip)"
  proof (intro impI, elim conjE)
    assume ok: "authOk (authorizeMachineScopedRequest d req auth trustedProxies clients rateLimiter)"
      and nb: "\<not> bearerAccepted d req auth trustedProxies rateLimiter"
    show "isLocalDirectRequest d req trustedProxies
        \<or> (\<exists>ip. effectiveClientIp d req trustedProxies = Some ip
               \<and> isPrivateOrLoopbackAddress d ip \<and> registryHolds clients ip)"
    proof (cases "isLocalDirectRequest d req trustedProxies")
      case True
      then show ?thesis by simp
    next
      case False
      note fb = machine_scoped_fallback[OF False nb, of clients]
      note nf = fallback_failure_not_ok[OF nb]
      show ?thesis
        using ok nf unfolding fb Let_def
        by (auto split: option.splits if_splits dest: hasAuthorized_holds)
    qed
  qed
  have two: "\<not> isLocalDirectRequest d req trustedProxies
      \<and> \<not> bearerAccepted d req auth trustedProxies rateLimiter
      \<and> (case effectiveClientIp d req trustedProxies of
            None \<Rightarrow> True | Some ip \<Rightarrow> \<not> isPrivateOrLoopbackAddress d ip)
    \<longrightarrow> \<not> authOk (authorizeMachineScopedRequest d req auth trustedProxies clients rateLimiter)
        \<and> (\<forall>clients'.
              authorizeMachineScopedRequest d req auth trustedProxies clients' rateLimiter
              = authorizeMachineScopedRequest d req auth trustedProxies clients rateLimiter)"
  proof (intro impI, elim conjE)
    assume nl: "\<not> isLocalDirectRequest d req trustedProxies"
      and nb: "\<not> bearerAccepted d req auth trustedProxies rateLimiter"
      and np: "case effectiveClientIp d req trustedProxies of
            None \<Rightarrow> True | Some ip \<Rightarrow> \<not> isPrivateOrLoopbackAddress d ip"
    have eq: "\<And>cs. authorizeMachineScopedRequest d req auth trustedProxies cs rateLimiter
        = (case bearerAttempt d req auth trustedProxies rateLimiter of
             Some r \<Rightarrow> r | None \<Rightarrow> authUnauthorized)"
      using np unfolding machine_scoped_fallback[OF nl nb] Let_def
      by (auto split: option.splits)
    show "\<not> authOk (authorizeMachineScopedRequest d req auth trustedProxies clients rateLimiter)
        \<and> (\<forall>clients'.
              authorizeMachineScopedRequest d req auth trustedProxies clients' rateLimiter
              = authorizeMachineScopedRequest d req auth trustedProxies clients rateLimiter)"
      using fallback_failure_not_ok[OF nb] by (simp add: eq)
  qed
  show ?thesis using one two by blast
qed

text \<open>
  Instances of C2: without a token, a request from 192.168.1.5 is granted when the
  registry holds a connection from 192.168.1.5; a request from 203.0.113.7 is rejected
  although the registry holds a connection from 203.0.113.7.
\<close>

theorem machine_scoped_ok_without_credential_witness:
  "authorizeMachineScopedRequest exampleAuthDeps (requestFrom ''192.168.1.5'') exampleAuth []
     [\<lparr>clientIp = Some ''192.168.1.5''\<rparr>] None = authGranted
   \<and> \<not> bearerAccepted exampleAuthDeps (requestFrom ''192.168.1.5'') exampleAuth [] None
   \<and> \<not> isLocalDirectRequest exampleAuthDeps (requestFrom ''192.168.1.5'') []
   \<and> effectiveClientIp exampleAuthDeps (requestFrom ''192.168.1.5'') [] = Some ''192.168.1.5''
   \<and> registryHolds [\<lparr>clientIp = Some ''192.168.1.5''\<rparr>] ''192.168.1.5''
   \<and> authorizeMachineScopedRequest exampleAuthDeps (requestFrom ''203.0.113.7'') exampleAuth []
       [\<lparr>clientIp = Some ''203.0.113.7''\<rparr>] None = authUnauthorized
   \<and> \<not> authOk (authorizeMachineScopedRequest exampleAuthDeps (requestFrom ''203.0.113.7'')
                exampleAuth [] [\<lparr>clientIp = Some ''203.0.113.7''\<rparr>] None)"
proof -
  have g: "authorizeMachineScopedRequest exampleAuthDeps (requestFrom ''192.168.1.5'') exampleAuth []
     [\<lparr>clientIp = Some ''192.168.1.5''\<rparr>] None = authGranted"
    and u: "authorizeMachineScopedRequest exampleAuthDeps (requestFrom ''203.0.113.7'') exampleAuth []
       [\<lparr>clientIp = Some ''203.0.113.7''\<rparr>] None = authUnauthorized"
    by (simp_all add: authorizeMachineScopedRequest_def siblingFallback_def bearerAttempt_def
          effectiveClientIp_def exampleAuthDeps_def requestFrom_def)
  have nb: "\<not> bearerAccepted exampleAuthDeps (requestFrom ''192.168.1.5'') exampleAuth [] None"
    and nb': "\<not> bearerAccepted exampleAuthDeps (requestFrom ''203.0.113.7'') exampleAuth [] None"
    by (simp_all add: bearerAccepted_def bearerAttempt_def exampleAuthDeps_def requestFrom_def)
  have nl: "\<not> isLocalDirectRequest exampleAuthDeps (requestFrom ''192.168.1.5'') []"
    and nl': "\<not> isLocalDirectRequest exampleAuthDeps (requestFrom ''203.0.113.7'') []"
    by (simp_all add: exampleAuthDeps_def requestFrom_def)
  have ip: "effectiveClientIp exampleAuthDeps (requestFrom ''192.168.1.5'') [] = Some ''192.168.1.5''"
    and ip': "effectiveClientIp exampleAuthDeps (requestFrom ''203.0.113.7'') [] = Some ''203.0.113.7''"
    by (simp_all add: effectiveClientIp_def exampleAuthDeps_def requestFrom_def)
  have np: "\<not> isPrivateOrLoopbackAddress exampleAuthDeps ''203.0.113.7''"
    by (simp add: exampleAuthDeps_def)
  have ok: "authOk authGranted" by (simp add: authGranted_def)
  have h: "registryHolds [\<lparr>clientIp = Some ''192.168.1.5''\<rparr>] ''192.168.1.5''"
    using machine_scoped_ok_without_credential
            [of exampleAuthDeps "requestFrom ''192.168.1.5''" exampleAuth "[]"
                "[\<lparr>clientIp = Some ''192.168.1.5''\<rparr>]" None]
          g ok nb nl ip
    by simp
  have r: "\<not> authOk (authorizeMachineScopedRequest exampleAuthDeps (requestFrom ''203.0.113.7'')
                exampleAuth [] [\<lparr>clientIp = Some ''203.0.113.7''\<rparr>] None)"
    using machine_scoped_ok_without_credential
            [of exampleAuthDeps "requestFrom ''203.0.113.7''" exampleAuth "[]"
                "[\<lparr>clientIp = Some ''203.0.113.7''\<rparr>]" None]
          nb' nl' ip' np
    by simp
  show ?thesis using g u nb nl ip h r by simp
qed

section \<open>noVNC asset paths (claim C1)\<close>
































section \<open>The display supervisor: restart timers (claim C9)\<close>

lemma inv_xvfb_update: "sup_inv (s\<lparr>xvfb := b\<rparr>) = sup_inv s"
  by (simp add: sup_inv_def)

lemma inv_x11vnc_update: "sup_inv (s\<lparr>x11vnc := b\<rparr>) = sup_inv s"
  by (simp add: sup_inv_def)

lemma inv_startXvfb: "sup_inv s \<Longrightarrow> sup_inv (fst (startXvfb lock s))"
  by (simp add: startXvfb_def inv_xvfb_update split: display_lock.splits)

lemma inv_stopXvfb: "sup_inv s \<Longrightarrow> sup_inv (fst (stopXvfb s))"
  by (simp add: stopXvfb_def inv_xvfb_update)

lemma inv_startX11vnc: "sup_inv s \<Longrightarrow> sup_inv (fst (startX11vnc s))"
  by (simp add: startX11vnc_def inv_x11vnc_update)

lemma inv_stopX11vnc: "sup_inv s \<Longrightarrow> sup_inv (fst (stopX11vnc s))"
  by (simp add: stopX11vnc_def inv_x11vnc_update)

lemma inv_childGone: "sup_inv (childGone kind s) = sup_inv s"
  by (simp add: childGone_def inv_xvfb_update inv_x11vnc_update split: proc_kind.splits)

lemma fst_andThen: "fst (andThen f g s) = fst (g (fst (f s)))"
  by (simp add: andThen_def split: prod.splits)

lemma inv_untrackedTimer:
  "sup_inv s \<Longrightarrow> \<forall>k. cb \<noteq> RestartCallback k \<Longrightarrow> sup_inv (fst (setTimeoutCall delay cb s))"
  unfolding sup_inv_def setTimeoutCall_def
  by (auto simp: less_Suc_eq)

lemma inv_startAfterWait: "sup_inv s \<Longrightarrow> sup_inv (fst (startAfterWait s))"
  by (simp add: startAfterWait_def startX11vnc_def inv_x11vnc_update)

lemma inv_waitForDisplayTurn: "sup_inv s \<Longrightarrow> sup_inv (fst (waitForDisplayTurn w l s))"
  by (simp add: waitForDisplayTurn_def inv_untrackedTimer inv_startAfterWait)

lemma map_of_None_fst: "map_of xs k = None \<longleftrightarrow> k \<notin> fst ` set xs"
  by (simp add: map_of_eq_None_iff)

lemma inv_scheduleRestart: "sup_inv s \<Longrightarrow> sup_inv (fst (scheduleRestart kind s))"
proof -
  assume inv: "sup_inv s"
  show ?thesis
  proof (cases "stopping s \<or> map_of (restartTimers s) kind \<noteq> None")
    case True
    then show ?thesis using inv by (auto simp: scheduleRestart_def)
  next
    case False
    then have ns: "\<not> stopping s" and nk: "kind \<notin> fst ` set (restartTimers s)"
      by (simp_all add: map_of_None_fst)
    have fresh: "\<forall>t \<in> set (pendingTimers s). fst t < nextTimer s"
      using inv by (simp add: sup_inv_def)
    then have nid: "nextTimer s \<notin> fst ` set (pendingTimers s)" by auto
    have st: "fst (scheduleRestart kind s) =
        s\<lparr>pendingTimers := pendingTimers s @ [(nextTimer s, RestartCallback kind)],
          nextTimer := Suc (nextTimer s),
          restartTimers := restartTimers s @ [(kind, nextTimer s)]\<rparr>"
      using False by (simp add: scheduleRestart_def setTimeoutCall_def)
    show ?thesis
      unfolding st sup_inv_def
      using inv nk nid ns fresh
      by (auto simp: sup_inv_def less_Suc_eq)
  qed
qed

lemma inv_stopCall: "sup_inv s \<Longrightarrow> sup_inv (fst (stopCall s))"
proof -
  assume inv: "sup_inv s"
  let ?c = "fst (clearRestartTimers (s\<lparr>stopping := True\<rparr>))"
  have "sup_inv ?c"
    using inv unfolding sup_inv_def clearRestartTimers_def
    by (auto simp: distinct_map_filter) force
  then show ?thesis
    by (simp add: stopCall_def fst_andThen inv_stopX11vnc inv_stopXvfb)
qed

lemma inv_timer_removed:
  assumes inv: "sup_inv s" and cb: "map_of (pendingTimers s) tid = Some (RestartCallback kind)"
  shows "sup_inv
           (s\<lparr>pendingTimers := filter (\<lambda>t. fst t \<noteq> tid) (pendingTimers s),
              restartTimers := filter (\<lambda>p. fst p \<noteq> kind) (restartTimers s)\<rparr>)"
proof -
  have dp: "distinct (map fst (pendingTimers s))" and dr: "distinct (map fst (restartTimers s))"
    and iff: "\<And>k i. (i, RestartCallback k) \<in> set (pendingTimers s)
                       \<longleftrightarrow> (k, i) \<in> set (restartTimers s)"
    and fresh: "\<forall>t \<in> set (pendingTimers s). fst t < nextTimer s"
    and st: "stopping s \<longrightarrow> restartTimers s = []"
    using inv by (simp_all add: sup_inv_def)
  have mem: "(tid, RestartCallback kind) \<in> set (pendingTimers s)"
    using cb by (rule map_of_SomeD)
  then have memr: "(kind, tid) \<in> set (restartTimers s)" using iff by simp
  have a: "\<And>k i. (k, i) \<in> set (restartTimers s) \<Longrightarrow> (i \<noteq> tid) = (k \<noteq> kind)"
  proof -
    fix k i assume ki: "(k, i) \<in> set (restartTimers s)"
    then have pi: "(i, RestartCallback k) \<in> set (pendingTimers s)" using iff by simp
    show "(i \<noteq> tid) = (k \<noteq> kind)"
    proof
      assume "i \<noteq> tid"
      then show "k \<noteq> kind" using dr ki memr by (metis eq_key_imp_eq_value)
    next
      assume "k \<noteq> kind"
      then show "i \<noteq> tid" using dp pi mem by (metis eq_key_imp_eq_value timer_callback.inject)
    qed
  qed
  have a1: "\<And>k i. (k, i) \<in> set (restartTimers s) \<Longrightarrow> i = tid \<Longrightarrow> k = kind"
    and a2: "\<And>k i. (k, i) \<in> set (restartTimers s) \<Longrightarrow> k = kind \<Longrightarrow> i = tid"
    using a by blast+
  show ?thesis
    unfolding sup_inv_def
    using dp dr fresh st iff
    by (auto simp: distinct_map_filter dest: a1 a2)
qed

lemma inv_pending_removed_untracked:
  assumes inv: "sup_inv s" and cb: "map_of (pendingTimers s) tid = Some c"
    and nr: "\<forall>k. c \<noteq> RestartCallback k"
  shows "sup_inv (s\<lparr>pendingTimers := filter (\<lambda>t. fst t \<noteq> tid) (pendingTimers s)\<rparr>)"
proof -
  have dp: "distinct (map fst (pendingTimers s))"
    using inv by (simp add: sup_inv_def)
  have mem: "(tid, c) \<in> set (pendingTimers s)"
    using cb by (rule map_of_SomeD)
  have "\<And>k. (tid, RestartCallback k) \<notin> set (pendingTimers s)"
    using dp mem nr by (metis eq_key_imp_eq_value)
  then show ?thesis
    using inv unfolding sup_inv_def
    by (auto simp: distinct_map_filter)
qed

lemma inv_restartCallback:
  assumes inv: "sup_inv s" and cb: "map_of (pendingTimers s) tid = Some (RestartCallback kind)"
  shows "sup_inv (fst (restartCallback kind lock
           (s\<lparr>pendingTimers := filter (\<lambda>t. fst t \<noteq> tid) (pendingTimers s)\<rparr>)))"
proof -
  let ?s2 = "s\<lparr>pendingTimers := filter (\<lambda>t. fst t \<noteq> tid) (pendingTimers s),
              restartTimers := filter (\<lambda>p. fst p \<noteq> kind) (restartTimers s)\<rparr>"
  have i2: "sup_inv ?s2" using inv cb by (rule inv_timer_removed)
  have eq: "(s\<lparr>pendingTimers := filter (\<lambda>t. fst t \<noteq> tid) (pendingTimers s)\<rparr>)
              \<lparr>restartTimers := filter (\<lambda>p. fst p \<noteq> kind)
                 (restartTimers (s\<lparr>pendingTimers := filter (\<lambda>t. fst t \<noteq> tid) (pendingTimers s)\<rparr>))\<rparr>
            = ?s2"
    by simp
  show ?thesis
    unfolding restartCallback_def Let_def eq
    using i2
    by (auto simp: fst_andThen inv_startXvfb inv_untrackedTimer inv_startX11vnc
          split: proc_kind.splits)
qed

lemma inv_followUpCallback: "sup_inv s \<Longrightarrow> sup_inv (fst (followUpCallback s))"
  by (simp add: followUpCallback_def fst_andThen inv_stopX11vnc inv_startX11vnc)

lemma inv_stopping_update: "sup_inv s \<Longrightarrow> sup_inv (s\<lparr>stopping := False\<rparr>)"
  by (simp add: sup_inv_def)

lemma inv_step: "sup_inv s \<Longrightarrow> sup_inv (fst (supStep s e))"
proof (cases e)
  case (StartCalled b lock lockExists)
  assume "sup_inv s"
  then show ?thesis
    using StartCalled
    by (simp add: inv_stopping_update inv_startXvfb inv_waitForDisplayTurn fst_andThen)
next
  case StopCalled
  assume "sup_inv s"
  then show ?thesis using StopCalled by (simp add: inv_stopCall)
next
  case (ChildError kind)
  assume "sup_inv s"
  then show ?thesis using ChildError by (simp add: inv_scheduleRestart)
next
  case (ChildExit kind)
  assume "sup_inv s"
  then show ?thesis using ChildExit by (simp add: inv_scheduleRestart inv_childGone)
next
  case (TimerFired tid lock w)
  assume inv: "sup_inv s"
  show ?thesis
  proof (cases "map_of (pendingTimers s) tid")
    case None
    then show ?thesis using inv TimerFired by simp
  next
    case (Some cb)
    let ?s1 = "s\<lparr>pendingTimers := filter (\<lambda>t. fst t \<noteq> tid) (pendingTimers s)\<rparr>"
    show ?thesis
    proof (cases cb)
      case (RestartCallback kind)
      then show ?thesis
        using inv_restartCallback[OF inv, of tid kind lock] Some TimerFired by simp
    next
      case FollowUpCallback
      then have "sup_inv ?s1"
        using inv_pending_removed_untracked[OF inv, of tid cb] Some by simp
      then show ?thesis
        using inv_followUpCallback[of ?s1] Some TimerFired FollowUpCallback by simp
    next
      case WaitPollCallback
      then have "sup_inv ?s1"
        using inv_pending_removed_untracked[OF inv, of tid cb] Some by simp
      then show ?thesis
        using inv_waitForDisplayTurn[of ?s1] Some TimerFired WaitPollCallback by simp
    next
      case WaitGraceCallback
      then have "sup_inv ?s1"
        using inv_pending_removed_untracked[OF inv, of tid cb] Some by simp
      then show ?thesis
        using inv_startAfterWait[of ?s1] Some TimerFired WaitGraceCallback by simp
    qed
  qed
qed

lemma inv_run: "sup_inv s \<Longrightarrow> sup_inv (fst (supRun s es))"
proof (induction es arbitrary: s)
  case Nil
  then show ?case by simp
next
  case (Cons e es)
  have "sup_inv (fst (supStep s e))" using Cons.prems by (rule inv_step)
  then have "sup_inv (fst (supRun (fst (supStep s e)) es))" by (rule Cons.IH)
  then show ?case by (auto split: prod.splits)
qed

lemma inv_after: "sup_inv (supAfter es)"
  unfolding supAfter_def by (rule inv_run) (simp add: sup_inv_def supervisorInit_def)

lemma scheduled_at_most_one:
  assumes "sup_inv s"
  shows "length (pendingScheduled kind s) \<le> 1"
proof -
  have dp: "distinct (map fst (pendingTimers s))" and dr: "distinct (map fst (restartTimers s))"
    and iff: "\<And>k i. (i, RestartCallback k) \<in> set (pendingTimers s)
                       \<longleftrightarrow> (k, i) \<in> set (restartTimers s)"
    using assms by (simp_all add: sup_inv_def)
  have d: "distinct (pendingScheduled kind s)"
    using dp by (simp add: pendingScheduled_def distinct_map_filter distinct_filter
                   distinct_map[THEN iffD1, THEN conjunct1])
  have "\<And>t u. t \<in> set (pendingScheduled kind s) \<Longrightarrow> u \<in> set (pendingScheduled kind s) \<Longrightarrow> t = u"
  proof -
    fix t u assume t: "t \<in> set (pendingScheduled kind s)" and u: "u \<in> set (pendingScheduled kind s)"
    have "(kind, fst t) \<in> set (restartTimers s)" "(kind, fst u) \<in> set (restartTimers s)"
      using t u iff[of "fst t" kind] iff[of "fst u" kind]
      by (auto simp: pendingScheduled_def) (metis prod.collapse)+
    then have "fst t = fst u" using dr by (metis eq_key_imp_eq_value)
    then show "t = u" using t u by (auto simp: pendingScheduled_def prod_eq_iff)
  qed
  then have "card (set (pendingScheduled kind s)) \<le> 1"
    by (metis card_le_Suc0_iff_eq List.finite_set One_nat_def)
  then show ?thesis using d by (simp add: distinct_card)
qed

lemma supRun_append:
  "supRun s (es1 @ es2) =
     (case supRun s es1 of
        (s1, out1) \<Rightarrow> (case supRun s1 es2 of (s2, out2) \<Rightarrow> (s2, out1 @ out2)))"
  by (induction es1 arbitrary: s) (auto split: prod.splits)

lemma supAfter_snoc: "supAfter (es @ [e]) = fst (supStep (supAfter es) e)"
  by (simp add: supAfter_def supRun_append split: prod.splits)

lemma stopCall_state:
  "stopping (fst (stopCall s)) \<and> restartTimers (fst (stopCall s)) = []"
  by (simp add: stopCall_def andThen_def clearRestartTimers_def stopX11vnc_def stopXvfb_def
        split: prod.splits)

lemma stopping_step:
  assumes "stopping s" and "\<not> isStart e"
  shows "stopping (fst (supStep s e)) \<and> filter schedulesRestart (snd (supStep s e)) = []"
proof (cases e)
  case (StartCalled b lock lockExists)
  then show ?thesis using assms by simp
next
  case StopCalled
  then show ?thesis
    by (simp add: stopCall_state)
       (simp add: stopCall_def andThen_def clearRestartTimers_def stopX11vnc_def stopXvfb_def
          filter_empty_conv)
next
  case (ChildError kind)
  then show ?thesis using assms by (simp add: scheduleRestart_def)
next
  case (ChildExit kind)
  then show ?thesis using assms by (simp add: childGone_def split: proc_kind.splits)
next
  case (TimerFired tid lock w)
  then show ?thesis
    using assms
    by (simp add: restartCallback_def followUpCallback_def waitForDisplayTurn_def
          startAfterWait_def startX11vnc_def setTimeoutCall_def Let_def
          split: option.splits timer_callback.splits)
qed

lemma stopping_restart_timer_no_effect:
  assumes "stopping s" and "firesRestartTimer s e"
  shows "snd (supStep s e) = []"
  using assms
  by (cases e)
     (auto simp add: restartCallback_def followUpCallback_def Let_def
        split: option.splits timer_callback.splits)

lemma stopping_run:
  assumes "stopping s" and "\<forall>e \<in> set es. \<not> isStart e"
  shows "stopping (fst (supRun s es)) \<and> filter schedulesRestart (snd (supRun s es)) = []"
  using assms
proof (induction es arbitrary: s)
  case Nil
  then show ?case by simp
next
  case (Cons e es)
  obtain s1 out1 where st: "supStep s e = (s1, out1)" by (cases "supStep s e")
  have "stopping s1 \<and> filter schedulesRestart out1 = []"
    using stopping_step[of s e] Cons.prems st by simp
  moreover have "stopping (fst (supRun s1 es)) \<and> filter schedulesRestart (snd (supRun s1 es)) = []"
    using Cons.IH[of s1] calculation Cons.prems(2) by simp
  ultimately show ?case by (auto simp: st split: prod.splits)
qed

text \<open>
  Claim C9, as amended. After every history of events: for each kind at most one timer
  made by \<open>scheduleRestart\<close> is pending; right after \<open>stop()\<close> the supervisor is stopping,
  \<open>restartTimers\<close> is empty and no timer made by \<open>scheduleRestart\<close> is pending. From then
  on, over any number of events none of which is a call of \<open>start()\<close>, the supervisor
  stays stopping and no restart is scheduled: \<open>setTimeout\<close> is not called with a restart
  or a follow-up callback (a \<open>start()\<close> that was under way goes on polling for the
  display and starts x11vnc). And while the supervisor is stopping, a restart or
  follow-up timer that fires (such as a 2 s follow-up that \<open>stop()\<close> did not clear) does
  nothing.
\<close>

theorem supervisor_scheduled_restart_timers:
  "length (pendingScheduled kind (supAfter es)) \<le> 1
   \<and> stopping (supAfter (es @ [StopCalled]))
   \<and> restartTimers (supAfter (es @ [StopCalled])) = []
   \<and> pendingScheduled kind (supAfter (es @ [StopCalled])) = []
   \<and> ((\<forall>e \<in> set later. \<not> isStart e)
        \<longrightarrow> stopping (fst (supRun (supAfter (es @ [StopCalled])) later))
           \<and> filter schedulesRestart (snd (supRun (supAfter (es @ [StopCalled])) later)) = [])
   \<and> (stopping s \<and> firesRestartTimer s e \<longrightarrow> snd (supStep s e) = [])"
proof -
  let ?stopped = "supAfter (es @ [StopCalled])"
  have a: "length (pendingScheduled kind (supAfter es)) \<le> 1"
    using inv_after by (rule scheduled_at_most_one)
  have st: "?stopped = fst (stopCall (supAfter es))" by (simp add: supAfter_snoc)
  have b: "stopping ?stopped" and c: "restartTimers ?stopped = []"
    unfolding st by (simp_all add: stopCall_state)
  have inv: "sup_inv ?stopped" by (rule inv_after)
  have d: "pendingScheduled kind ?stopped = []"
  proof -
    have "\<And>tid. (tid, RestartCallback kind) \<notin> set (pendingTimers ?stopped)"
      using inv c unfolding sup_inv_def by simp
    then show ?thesis
      by (auto simp: pendingScheduled_def filter_empty_conv)
  qed
  have e: "(\<forall>e \<in> set later. \<not> isStart e)
        \<longrightarrow> stopping (fst (supRun ?stopped later))
           \<and> filter schedulesRestart (snd (supRun ?stopped later)) = []"
    using stopping_run[OF b] by blast
  have f: "stopping s \<and> firesRestartTimer s e \<longrightarrow> snd (supStep s e) = []"
    using stopping_restart_timer_no_effect by blast
  show ?thesis using a b c d e f by blast
qed

lemmas sup_eval =
  supAfter_def supervisorInit_def startXvfb_def startX11vnc_def stopXvfb_def stopX11vnc_def
  scheduleRestart_def setTimeoutCall_def restartCallback_def followUpCallback_def
  clearRestartTimers_def stopCall_def andThen_def childGone_def waitForDisplayTurn_def
  startAfterWait_def

lemma crashHistory_state:
  "supAfter crashHistory =
     \<lparr>xvfb = True, x11vnc = False, stopping = False,
      restartTimers = [(X11vnc, 3)],
      pendingTimers = [(3, RestartCallback X11vnc), (4, FollowUpCallback)],
      nextTimer = 5\<rparr>"
  by (simp add: crashHistory_def sup_eval)

lemma crashHistory_stopped:
  "supAfter (crashHistory @ [StopCalled]) =
     \<lparr>xvfb = False, x11vnc = False, stopping = True,
      restartTimers = [],
      pendingTimers = [(4, FollowUpCallback)],
      nextTimer = 5\<rparr>"
  by (simp add: supAfter_snoc crashHistory_state) (simp add: sup_eval)

lemma stopDuringStart_stopped:
  "supAfter (stopDuringStart @ [StopCalled]) =
     \<lparr>xvfb = False, x11vnc = False, stopping = True,
      restartTimers = [],
      pendingTimers = [(0, WaitPollCallback)],
      nextTimer = 1\<rparr>"
  by (simp add: stopDuringStart_def sup_eval)

text \<open>
  Instances of C9. After the crash history one timer made by \<open>scheduleRestart\<close> is
  pending for x11vnc; \<open>stop()\<close> clears it and leaves the follow-up (timer 4) pending;
  while stopping, the follow-up fires without effect, and errors, exits and timers lead
  to no call at all. When \<open>stop()\<close> comes while \<open>start()\<close> waits for the display, the wait
  goes on (a poll timer, the grace timer) and x11vnc is started, but no restart is
  scheduled.
\<close>

theorem supervisor_scheduled_restart_timers_witness:
  "pendingScheduled X11vnc (supAfter crashHistory) = [(3, RestartCallback X11vnc)]
   \<and> pendingTimers (supAfter (crashHistory @ [StopCalled])) = [(4, FollowUpCallback)]
   \<and> stopping (supAfter (crashHistory @ [StopCalled]))
   \<and> firesRestartTimer (supAfter (crashHistory @ [StopCalled])) (TimerFired 4 NoLock True)
   \<and> supStep (supAfter (crashHistory @ [StopCalled])) (TimerFired 4 NoLock True)
       = (\<lparr>xvfb = False, x11vnc = False, stopping = True, restartTimers = [],
           pendingTimers = [], nextTimer = 5\<rparr>, [])
   \<and> snd (supRun (supAfter (crashHistory @ [StopCalled]))
            [ChildError X11vnc, ChildExit X11vnc, TimerFired 4 NoLock True,
             TimerFired 3 NoLock True]) = []
   \<and> snd (supRun (supAfter (stopDuringStart @ [StopCalled]))
            [TimerFired 0 LockOfLiveProcess True, TimerFired 1 LockOfLiveProcess True,
             ChildExit X11vnc])
       = [SetTimeout 1 200 WaitGraceCallback, Spawn X11vnc]
   \<and> filter schedulesRestart
         (snd (supRun (supAfter (stopDuringStart @ [StopCalled]))
                 [TimerFired 0 LockOfLiveProcess True, TimerFired 1 LockOfLiveProcess True,
                  ChildExit X11vnc])) = []"
proof -
  let ?stopped = "supAfter (crashHistory @ [StopCalled])"
  let ?later = "[ChildError X11vnc, ChildExit X11vnc, TimerFired 4 NoLock True,
                 TimerFired 3 NoLock True]"
  let ?stopped2 = "supAfter (stopDuringStart @ [StopCalled])"
  let ?later2 = "[TimerFired 0 LockOfLiveProcess True, TimerFired 1 LockOfLiveProcess True,
                  ChildExit X11vnc]"
  have p: "pendingScheduled X11vnc (supAfter crashHistory) = [(3, RestartCallback X11vnc)]"
    by (simp add: pendingScheduled_def crashHistory_state)
  have t: "firesRestartTimer ?stopped (TimerFired 4 NoLock True)"
    by (simp add: crashHistory_stopped)
  have ns2: "\<forall>e \<in> set ?later2. \<not> isStart e" by simp
  note inst = supervisor_scheduled_restart_timers
               [of X11vnc crashHistory ?later ?stopped "TimerFired 4 NoLock True"]
  note inst2 = supervisor_scheduled_restart_timers
               [of X11vnc stopDuringStart ?later2 ?stopped "TimerFired 4 NoLock True"]
  have st: "stopping ?stopped" using inst by blast
  have e1: "snd (supStep ?stopped (TimerFired 4 NoLock True)) = []" using inst st t by blast
  have e2: "fst (supStep ?stopped (TimerFired 4 NoLock True))
              = \<lparr>xvfb = False, x11vnc = False, stopping = True, restartTimers = [],
                 pendingTimers = [], nextTimer = 5\<rparr>"
    by (simp add: crashHistory_stopped followUpCallback_def)
  have e3: "snd (supRun ?stopped ?later) = []"
    unfolding crashHistory_stopped by (simp add: sup_eval)
  have e4: "snd (supRun ?stopped2 ?later2) = [SetTimeout 1 200 WaitGraceCallback, Spawn X11vnc]"
    unfolding stopDuringStart_stopped by (simp add: sup_eval)
  have e5: "filter schedulesRestart (snd (supRun ?stopped2 ?later2)) = []"
    using inst2 ns2 by blast
  show ?thesis
    using p st t e1 e2 e3 e4 e5 by (simp add: crashHistory_stopped prod_eq_iff)
qed

text \<open>
  C9 as the specification states it fails after the crash history: two pending timers
  restart x11vnc (the 5 s restart timer and the 2 s follow-up), and after \<open>stop()\<close> the
  follow-up is still pending.
\<close>

theorem supervisor_follow_up_timer_counterexample:
  "pendingRestartTimers X11vnc (supAfter crashHistory)
     = [(3, RestartCallback X11vnc), (4, FollowUpCallback)]
   \<and> \<not> length (pendingRestartTimers X11vnc (supAfter crashHistory)) \<le> 1
   \<and> pendingRestartTimers X11vnc (supAfter (crashHistory @ [StopCalled]))
       = [(4, FollowUpCallback)]
   \<and> pendingRestartTimers X11vnc (supAfter (crashHistory @ [StopCalled])) \<noteq> []"
  by (simp add: pendingRestartTimers_def crashHistory_state crashHistory_stopped)

end
